theory Spec2Isabelle
  imports Main "HOL-Library.AList" "HOL-Library.Sublist"
begin

section \<open>JavaScript values\<close>

text \<open>
  A slot holding a JavaScript string is a \<open>string option\<close>: \<open>None\<close> is \<open>undefined\<close>.
  A slot is truthy when it holds a non-empty string; \<open>a || b\<close> yields \<open>a\<close> when \<open>a\<close> is
  truthy and \<open>b\<close> otherwise.
\<close>

definition truthy :: "string option \<Rightarrow> bool" where
  "truthy s = (case s of None \<Rightarrow> False | Some t \<Rightarrow> t \<noteq> [])"

definition js_or :: "string option \<Rightarrow> string option \<Rightarrow> string option" where
  "js_or a b = (if truthy a then a else b)"

text \<open>
  A plain object with string values is an association list in insertion order;
  \<open>obj[k]\<close> is \<open>get_prop\<close>, \<open>obj[k] = v\<close> is \<open>AList.update\<close> (an existing key keeps its
  place, a new key goes last).
\<close>

type_synonym jsobject = "(string \<times> string option) list"

definition get_prop :: "jsobject \<Rightarrow> string \<Rightarrow> string option" where
  "get_prop obj k = (case map_of obj k of None \<Rightarrow> None | Some v \<Rightarrow> v)"

datatype js_error = TypeError

text \<open>
  A call either returns a value or throws; the mutations made before a throw stay, so
  both carry the state. A method without a return value returns \<open>()\<close>.
\<close>

datatype ('r, 's) outcome = Done 'r 's | Throw js_error 's

fun state_of :: "('r, 's) outcome \<Rightarrow> 's" where
  "state_of (Done r s) = s"
| "state_of (Throw e s) = s"

text \<open>\<open>xs.forEach(f)\<close> where \<open>f\<close> may throw: the first throw ends the loop.\<close>

fun forEach :: "('a \<Rightarrow> 's \<Rightarrow> (unit, 's) outcome) \<Rightarrow> 'a list \<Rightarrow> 's \<Rightarrow> (unit, 's) outcome" where
  "forEach f [] s = Done () s"
| "forEach f (x # xs) s =
     (case f x s of Done r s' \<Rightarrow> forEach f xs s' | Throw e s' \<Rightarrow> Throw e s')"

datatype log_entry = LogError string | LogWarn string

section \<open>TranslationVariant and TranslationUnit\<close>

text \<open>
  Both classes are imported from \<open>ilib-tools-common\<close>; tmx.js calls their constructors,
  \<open>hashKey\<close>, \<open>getVariants\<close>, \<open>addVariant\<close>, \<open>addVariants\<close> and \<open>addProperties\<close>.
\<close>

record tvariant =
  tv_locale :: "string option"
  tv_string :: "string option"

type_synonym vkey = "string option \<times> string option"

text \<open>
  Modelled from the spec: \<open>TranslationVariant.hashKey\<close>, whose code is in the imported
  package. The identity key of a variant is a deterministic function of (locale, string)
  under which variants of the same locale with different strings are distinct entries;
  it is kept as the pair itself.
\<close>

definition vhashKey :: "tvariant \<Rightarrow> vkey" where
  "vhashKey v = (tv_locale v, tv_string v)"

record tunit =
  tu_source :: "string option"
  tu_sourceLocale :: "string option"
  tu_target :: "string option"
  tu_targetLocale :: "string option"
  tu_datatype :: "string option"
  tu_properties :: jsobject
  tu_comment :: "string option"
  tu_pre :: "string option"
  tu_post :: "string option"
  tu_variants :: "tvariant list"

type_synonym ukey = "string option \<times> string option \<times> string option"

text \<open>
  Modelled from the spec: \<open>TranslationUnit.hashKey\<close>, whose code is in the imported
  package. The identity key of a unit is a deterministic function of sourceLocale, source
  and datatype, opaque and comparable for equality; it is kept as the triple itself.
\<close>

definition hashKey :: "tunit \<Rightarrow> ukey" where
  "hashKey u = (tu_sourceLocale u, tu_source u, tu_datatype u)"

text \<open>
  Modelled from the spec: the constructor of \<open>TranslationUnit\<close>, whose code is in the
  imported package: a unit with no variants and no properties, its fields taken from the
  options (\<open>new TranslationUnit()\<close> leaves them all undefined).
\<close>

definition TranslationUnit_empty :: tunit where
  "TranslationUnit_empty =
     \<lparr> tu_source = None, tu_sourceLocale = None, tu_target = None, tu_targetLocale = None,
       tu_datatype = None, tu_properties = [], tu_comment = None, tu_pre = None,
       tu_post = None, tu_variants = [] \<rparr>"

definition TranslationUnit_new ::
  "string option \<Rightarrow> string option \<Rightarrow> string option \<Rightarrow> string option \<Rightarrow> string option \<Rightarrow> tunit" where
  "TranslationUnit_new src srcLocale tgt tgtLocale dt =
     TranslationUnit_empty
       \<lparr> tu_source := src, tu_sourceLocale := srcLocale, tu_target := tgt,
         tu_targetLocale := tgtLocale, tu_datatype := dt \<rparr>"

text \<open>
  Modelled from the spec: \<open>addVariant\<close> and \<open>addVariants\<close> of \<open>TranslationUnit\<close>, whose
  code is in the imported package: a variant is appended when its key is not already
  present on the unit, and an existing variant is never replaced.
\<close>

definition addVariant :: "tvariant \<Rightarrow> tunit \<Rightarrow> tunit" where
  "addVariant v u =
     (if vhashKey v \<in> set (map vhashKey (tu_variants u)) then u
      else u\<lparr>tu_variants := tu_variants u @ [v]\<rparr>)"

definition addVariants :: "tvariant list \<Rightarrow> tunit \<Rightarrow> tunit" where
  "addVariants vs u = fold addVariant vs u"

text \<open>
  Modelled from the spec: \<open>addProperties\<close> of \<open>TranslationUnit\<close>, whose code is in the
  imported package: every given property is set on the unit.
\<close>

definition addProperties :: "jsobject \<Rightarrow> tunit \<Rightarrow> tunit" where
  "addProperties ps u =
     u\<lparr>tu_properties := fold (\<lambda>(k, v). AList.update k v) ps (tu_properties u)\<rparr>"

section \<open>The unit store\<close>

text \<open>
  Units are objects: a document's \<open>tu\<close> array and \<open>tuhash\<close> object hold references, and
  two documents can hold the same unit. The store is the list of all units allocated so
  far and a reference is an index into it; \<open>new TranslationUnit\<close> appends a cell.
\<close>

type_synonym addr = nat
type_synonym heap = "tunit list"

definition alloc :: "tunit \<Rightarrow> heap \<Rightarrow> addr \<times> heap" where
  "alloc u h = (length h, h @ [u])"

section \<open>The TMX class\<close>

text \<open>
  \<open>version\<close> is a JavaScript number; it is kept as the decimal text that \<open>"" + num\<close>
  renders, the only form in which the class reads it.
\<close>

record tmx =
  version :: string
  properties :: jsobject
  sourceLocale :: string
  adminLocale :: string
  tu :: "addr list"
  tuhash :: "(ukey \<times> addr) list"

definition headerAttrs :: "string list" where
  "headerAttrs = [''segtype'', ''creationtool'', ''creationtoolversion'', ''adminlang'',
                  ''srclang'', ''datatype'']"

text \<open>
  The options of the constructor. Loading from \<open>path\<close> reads a file and is left out;
  \<open>opt_version\<close> is the number that \<open>Number.parseFloat\<close> returns, as rendered text.
  When the options give \<open>properties\<close>, \<open>this.properties\<close> is that very object, so
  \<open>options.properties[prop]\<close> in the loop over the header attributes reads what the
  constructor has written so far, the segmentation included.
\<close>

record tmx_options =
  opt_properties :: "jsobject option"
  opt_sourceLocale :: "string option"
  opt_version :: "string option"
  opt_segmentation :: "string option"
  opt_attrs :: jsobject

definition TMX_default :: tmx where
  "TMX_default =
     \<lparr> version = ''1.4'',
       properties = [(''datatype'', Some ''unknown''), (''segtype'', Some ''paragraph'')],
       sourceLocale = ''en'', adminLocale = ''en'', tu = [], tuhash = [] \<rparr>"

definition TMX_new :: "tmx_options option \<Rightarrow> tmx" where
  "TMX_new options =
     (case options of
        None \<Rightarrow> TMX_default
      | Some opts \<Rightarrow>
          let props0 = (case opt_properties opts of
                          None \<Rightarrow> properties TMX_default
                        | Some p \<Rightarrow> p);
              srcLoc = (case opt_sourceLocale opts of
                          None \<Rightarrow> ''en''
                        | Some l \<Rightarrow> if l = [] then ''en'' else l);
              ver = (case opt_version opts of None \<Rightarrow> ''1.4'' | Some v \<Rightarrow> v);
              props1 = (if opt_segmentation opts = Some ''paragraph''
                           \<or> opt_segmentation opts = Some ''sentence''
                        then AList.update ''segtype'' (opt_segmentation opts) props0
                        else props0);
              props2 = fold (\<lambda>prop ps.
                          let v = js_or (get_prop (opt_attrs opts) prop)
                                    (case opt_properties opts of
                                       None \<Rightarrow> None
                                     | Some p \<Rightarrow> get_prop ps prop)
                          in if truthy v then AList.update prop v ps else ps)
                        headerAttrs props1
          in \<lparr> version = ver, properties = props2, sourceLocale = srcLoc,
               adminLocale = ''en'', tu = [], tuhash = [] \<rparr>)"

text \<open>
  \<open>addTranslationUnit(unit)\<close>: the unit is merged into the unit indexed under its key,
  or stored and indexed when the key is new.
\<close>

definition addTranslationUnit :: "addr \<Rightarrow> tmx \<times> heap \<Rightarrow> tmx \<times> heap" where
  "addTranslationUnit unit = (\<lambda>(d, h).
     let hk = hashKey (h ! unit) in
     case map_of (tuhash d) hk of
       Some existing \<Rightarrow>
         (d, h[existing := addVariants (tu_variants (h ! unit)) (h ! existing)])
     | None \<Rightarrow>
         (d\<lparr>tu := tu d @ [unit], tuhash := AList.update hk unit (tuhash d)\<rparr>, h))"

definition addTranslationUnits :: "addr list \<Rightarrow> tmx \<times> heap \<Rightarrow> tmx \<times> heap" where
  "addTranslationUnits units s = fold addTranslationUnit units s"

definition size_tmx :: "tmx \<Rightarrow> nat" where
  "size_tmx d = length (tu d)"

section \<open>Segmentation\<close>

text \<open>
  \<open>String.prototype.trim\<close> on the characters a \<open>char\<close> can hold: tab, line feed,
  vertical tab, form feed, carriage return, space and no-break space.
\<close>

definition js_space :: "char \<Rightarrow> bool" where
  "js_space c = (of_char c \<in> {9, 10, 11, 12, 13, 32, 160 :: nat})"

definition trimStart :: "string \<Rightarrow> string" where
  "trimStart s = dropWhile js_space s"

definition trim :: "string \<Rightarrow> string" where
  "trim s = rev (dropWhile js_space (rev (dropWhile js_space s)))"

text \<open>
  \<open>segmentString(string, locale)\<close>. The sentence splitter of \<open>cldr-segmentation\<close>,
  applied with the suppressions of the locale's language, is the parameter
  \<open>sentenceSplit\<close>.
\<close>

type_synonym splitter = "string \<Rightarrow> string option \<Rightarrow> string list"

definition segmentString :: "splitter \<Rightarrow> tmx \<Rightarrow> string option \<Rightarrow> string option \<Rightarrow> string list" where
  "segmentString sentenceSplit d str loc =
     (case str of
        None \<Rightarrow> []
      | Some s \<Rightarrow>
          if s = [] then []
          else if get_prop (properties d) ''segtype'' = Some ''paragraph'' then [s]
          else map (\<lambda>t. if t = [] then t else trim t) (sentenceSplit s loc))"

definition getSegmentationType :: "tmx \<Rightarrow> string option" where
  "getSegmentationType d = get_prop (properties d) ''segtype''"

section \<open>Resources\<close>

text \<open>
  A resource is an object of \<open>ilib-tools-common\<close> read through its getters only. Its
  type tag and the shape of \<open>getSource()\<close>, \<open>getSourceArray()\<close> and \<open>getTarget()\<close> go together:
  a string, an array of strings, or an object from plural category to string; an absent
  target is \<open>None\<close>. An object lists each category once, in the order \<open>for ... in\<close>
  visits them.
\<close>

datatype res_content =
    ResString "string option" "string option"
  | ResArray "string option list" "string option list option"
  | ResPlural "(string \<times> string option) list" "(string \<times> string option) list option"

record resource =
  res_sourceLocale :: "string option"
  res_targetLocale :: "string option"
  res_dataType :: "string option"
  res_context :: "string option"
  res_flavor :: "string option"
  res_project :: "string option"
  res_content :: res_content

text \<open>\<open>xs[i]\<close> on an array: \<open>undefined\<close> out of range.\<close>

definition at_index :: "'a list \<Rightarrow> nat \<Rightarrow> 'a option" where
  "at_index xs i = (if i < length xs then Some (xs ! i) else None)"

text \<open>
  Modelled from the spec: \<open>objectMap\<close> of \<open>ilib-tools-common\<close>, whose code is in the
  imported package: the object with the same categories, each value mapped.
\<close>

definition objectMap :: "('a \<Rightarrow> 'b) \<Rightarrow> (string \<times> 'a) list \<Rightarrow> (string \<times> 'b) list" where
  "objectMap f obj = map (\<lambda>(k, v). (k, f v)) obj"

definition resProperties :: "resource \<Rightarrow> jsobject" where
  "resProperties res =
     [(''x-context'', res_context res), (''x-flavor'', res_flavor res),
      (''x-project'', res_project res)]"

text \<open>
  The unit every branch of \<open>addResource\<close> builds for a source segment: constructor,
  source variant, the target variant when there is one, then the properties.
\<close>

definition segmentUnit :: "resource \<Rightarrow> string \<Rightarrow> tvariant option \<Rightarrow> tunit" where
  "segmentUnit res segment tv =
     (let u0 = TranslationUnit_new (Some segment) (res_sourceLocale res) None None (res_dataType res);
          u1 = addVariant \<lparr>tv_locale = res_sourceLocale res, tv_string = Some segment\<rparr> u0;
          u2 = (case tv of None \<Rightarrow> u1 | Some v \<Rightarrow> addVariant v u1)
      in addProperties (resProperties res) u2)"

definition addTarget :: "tmx \<Rightarrow> resource \<Rightarrow> bool" where
  "addTarget d res =
     (truthy (res_targetLocale res) \<and> res_targetLocale res \<noteq> Some (sourceLocale d))"

text \<open>The body of the \<open>forEach\<close> of the string branch, at segment \<open>i\<close>.\<close>

definition stringStep ::
  "resource \<Rightarrow> bool \<Rightarrow> string option \<Rightarrow> string list \<Rightarrow> nat \<times> string \<Rightarrow> tmx \<times> heap \<Rightarrow> (unit, tmx \<times> heap) outcome" where
  "stringStep res addT tgt translationSegments = (\<lambda>(i, segment) (d, h).
     let tv = (if addT \<and> truthy tgt \<and> truthy (at_index translationSegments i)
               then Some \<lparr>tv_locale = res_targetLocale res,
                          tv_string = at_index translationSegments i\<rparr>
               else None);
         (a, h') = alloc (segmentUnit res segment tv) h
     in Done () (addTranslationUnit a (d, h')))"

text \<open>
  The body of the inner \<open>forEach\<close> of the array branch, at element \<open>i\<close>, segment \<open>j\<close>.
  \<open>tarArr\<close> is \<open>None\<close> when \<open>res.getTarget()\<close> is undefined; reading \<open>tarArr[i]\<close> then
  throws.
\<close>

definition arrayStep ::
  "resource \<Rightarrow> bool \<Rightarrow> string list list option \<Rightarrow> nat \<Rightarrow> nat \<times> string \<Rightarrow> tmx \<times> heap \<Rightarrow> (unit, tmx \<times> heap) outcome" where
  "arrayStep res addT tarArr i = (\<lambda>(j, str) (d, h).
     if addT \<and> tarArr = None then Throw TypeError (d, h)
     else
       let tv = (case (if addT then tarArr else None) of
                   None \<Rightarrow> None
                 | Some t \<Rightarrow>
                     (case at_index t i of
                        None \<Rightarrow> None
                      | Some ti \<Rightarrow>
                          if j < length ti
                          then Some \<lparr>tv_locale = res_targetLocale res, tv_string = at_index ti j\<rparr>
                          else None));
           (a, h') = alloc (segmentUnit res str tv) h
       in Done () (addTranslationUnit a (d, h')))"

text \<open>
  The plural branch keeps the list \<open>other\<close> of the units built for the category
  \<open>other\<close>, so its state is the document, the store and that list.
\<close>

definition pluralStep ::
  "resource \<Rightarrow> bool \<Rightarrow> (string \<times> string list) list option \<Rightarrow> string \<Rightarrow> nat \<times> string
     \<Rightarrow> tmx \<times> heap \<times> addr list \<Rightarrow> (unit, tmx \<times> heap \<times> addr list) outcome" where
  "pluralStep res addT tarPlurals category = (\<lambda>(i, str) (d, h, other).
     let tv = (case (if addT then tarPlurals else None) of
                 None \<Rightarrow> None
               | Some t \<Rightarrow>
                   (case map_of t category of
                      None \<Rightarrow> None
                    | Some tc \<Rightarrow>
                        Some \<lparr>tv_locale = res_targetLocale res, tv_string = at_index tc i\<rparr>));
         (a, h') = alloc (segmentUnit res str tv) h;
         other' = (if category = ''other'' then other @ [a] else other);
         (d', h'') = addTranslationUnit a (d, h')
     in Done () (d', h'', other'))"

text \<open>
  The body of the \<open>forEach\<close> over a category that only the target has:
  \<open>other[i].addVariant(...)\<close>, which throws when \<open>other[i]\<close> is undefined.
\<close>

definition extraStep ::
  "resource \<Rightarrow> nat \<times> string \<Rightarrow> tmx \<times> heap \<times> addr list \<Rightarrow> (unit, tmx \<times> heap \<times> addr list) outcome" where
  "extraStep res = (\<lambda>(i, str) (d, h, other).
     case at_index other i of
       None \<Rightarrow> Throw TypeError (d, h, other)
     | Some a \<Rightarrow>
         Done () (d, h[a := addVariant \<lparr>tv_locale = res_targetLocale res, tv_string = Some str\<rparr> (h ! a)],
               other))"

definition extraCategory ::
  "resource \<Rightarrow> (string \<times> string list) list \<Rightarrow> string \<times> string list
     \<Rightarrow> tmx \<times> heap \<times> addr list \<Rightarrow> (unit, tmx \<times> heap \<times> addr list) outcome" where
  "extraCategory res srcPlurals = (\<lambda>(category, segs) s.
     if map_of srcPlurals category = None then forEach (extraStep res) (enumerate 0 segs) s
     else Done () s)"

fun drop_other :: "(unit, tmx \<times> heap \<times> addr list) outcome \<Rightarrow> (unit, tmx \<times> heap) outcome" where
  "drop_other (Done r (d, h, other)) = Done r (d, h)"
| "drop_other (Throw e (d, h, other)) = Throw e (d, h)"

text \<open>\<open>addResource(res)\<close>; \<open>None\<close> is the falsy \<open>res\<close>.\<close>

definition addResource :: "splitter \<Rightarrow> resource option \<Rightarrow> tmx \<times> heap \<Rightarrow> (unit, tmx \<times> heap) outcome" where
  "addResource sentenceSplit resource = (\<lambda>(d, h).
     case resource of
       None \<Rightarrow> Done () (d, h)
     | Some res \<Rightarrow>
         (if res_sourceLocale res \<noteq> Some (sourceLocale d) then Done () (d, h)
          else
            (let addT = addTarget d res;
                 seg = segmentString sentenceSplit d
             in (case res_content res of
                   ResString src tgt \<Rightarrow>
                     (let translationSegments = (if addT then seg tgt (res_targetLocale res) else []);
                          sourceSegments = seg src (res_sourceLocale res)
                      in forEach (stringStep res addT tgt translationSegments)
                           (enumerate 0 sourceSegments) (d, h))
                 | ResArray src tgt \<Rightarrow>
                     (let srcArr = map (\<lambda>element. seg element (res_sourceLocale res)) src;
                          tarArr = (if addT
                                    then map_option (map (\<lambda>element. seg element (res_targetLocale res))) tgt
                                    else None)
                      in forEach (\<lambda>(i, element). forEach (arrayStep res addT tarArr i) (enumerate 0 element))
                           (enumerate 0 srcArr) (d, h))
                 | ResPlural src tgt \<Rightarrow>
                     (let srcPlurals = objectMap (\<lambda>str. seg str (res_sourceLocale res)) src;
                          tarPlurals = map_option (objectMap (\<lambda>str. seg str (res_targetLocale res))) tgt
                      in drop_other
                           (case forEach (\<lambda>(category, segs).
                                    forEach (pluralStep res addT tarPlurals category) (enumerate 0 segs))
                                  srcPlurals (d, h, [])
                            of Throw e s \<Rightarrow> Throw e s
                             | Done r s \<Rightarrow>
                                 (case (if addT then tarPlurals else None) of
                                    None \<Rightarrow> Done () s
                                  | Some t \<Rightarrow> forEach (extraCategory res srcPlurals) t s)))))))"

section \<open>The wire tree\<close>

text \<open>
  \<open>xml-js\<close> in compact mode maps the XML text to a tree of objects and back: an element
  is an object with \<open>_attributes\<close>, \<open>_text\<close> and one property per child element name,
  holding the child, or the array of the children when the name repeats. \<open>serialize\<close>
  builds this tree and hands it to \<open>js2xml\<close>; \<open>deserialize\<close> reads the tree that
  \<open>xml2js\<close> returns. The model starts and ends at the tree. A property that may hold
  one element or an array (read through \<open>makeArray\<close>) is a list, empty when absent;
  \<open>_attributes\<close> is \<open>None\<close> when the element has no attribute.
\<close>

record jtext =
  el_attributes :: "jsobject option"
  el_text :: "string option"

record jtuv =
  tuv_attributes :: "jsobject option"
  tuv_seg :: "jtext option"
  tuv_prop :: "jtext list"

record jtu =
  jtu_attributes :: "jsobject option"
  jtu_prop :: "jtext list"
  jtu_note :: "jtext option"
  jtu_tuv :: "jtuv list"

record jheader =
  header_attributes :: "jsobject option"
  header_prop :: "jtext list"

record jbody =
  body_tu :: "jtu list"

record jtmx =
  tmx_attributes :: "jsobject option"
  tmx_header :: "jheader option"
  tmx_body :: "jbody option"

record json =
  json_tmx :: "jtmx option"

section \<open>Serialization\<close>

fun splitOn :: "char \<Rightarrow> string \<Rightarrow> string list" where
  "splitOn c [] = [[]]"
| "splitOn c (x # xs) =
     (if x = c then [] # splitOn c xs
      else (case splitOn c xs of [] \<Rightarrow> [[x]] | p # ps \<Rightarrow> (x # p) # ps))"

definition versionString :: "string \<Rightarrow> string" where
  "versionString num =
     (let parts = splitOn CHR ''.'' num;
          integral = (case at_index parts 0 of None \<Rightarrow> [] | Some i \<Rightarrow> i);
          fraction = (case at_index parts 1 of
                        None \<Rightarrow> ''0''
                      | Some f \<Rightarrow> if f = [] then ''0'' else f)
      in integral @ ''.'' @ fraction)"

definition serializeTranslationVariant :: "tvariant \<Rightarrow> jtuv" where
  "serializeTranslationVariant tv =
     \<lparr> tuv_attributes = Some [(''xml:lang'', tv_locale tv)],
       tuv_seg = Some \<lparr>el_attributes = None, el_text = tv_string tv\<rparr>,
       tuv_prop = [] \<rparr>"

text \<open>\<open>serializeTranslationUnit(tu)\<close>; \<open>None\<close> is the \<open>undefined\<close> it returns.\<close>

definition serializeTranslationUnit :: "tunit \<Rightarrow> jtu option" where
  "serializeTranslationUnit u =
     (if length (tu_variants u) < 2 then None
      else Some
        \<lparr> jtu_attributes = Some [(''srclang'', tu_sourceLocale u)],
          jtu_prop = map (\<lambda>(p, v). \<lparr>el_attributes = Some [(''type'', Some p)], el_text = v\<rparr>)
                       (tu_properties u),
          jtu_note = None,
          jtu_tuv = map serializeTranslationVariant (tu_variants u) \<rparr>)"

text \<open>
  \<open>serialize()\<close>, up to the tree it passes to \<open>js2xml\<close>. \<open>pkgVersion\<close> is what
  \<open>getVersion()\<close> reads from package.json.
\<close>

definition serialize :: "string option \<Rightarrow> tmx \<Rightarrow> heap \<Rightarrow> json" where
  "serialize pkgVersion d h =
     (let props = properties d;
          attrs0 = [(''version'', Some (versionString (version d)))];
          hattrs0 =
            [(''segtype'', get_prop props ''segtype''),
             (''creationtool'', js_or (get_prop props ''creationtool'') (Some ''loctool'')),
             (''creationtoolversion'', js_or (get_prop props ''creationtoolversion'') pkgVersion),
             (''adminlang'', Some (adminLocale d)),
             (''srclang'', Some (sourceLocale d)),
             (''datatype'', get_prop props ''datatype'')];
          hattrs = (if truthy (get_prop props ''originalFormat'')
                    then AList.update ''o-tmf'' (get_prop props ''originalFormat'') hattrs0
                    else hattrs0);
          hprops = map (\<lambda>prop. \<lparr>el_attributes = Some [(''type'', Some prop)],
                                 el_text = get_prop props prop\<rparr>)
                     (filter (\<lambda>prop. prop \<notin> set headerAttrs) (map fst props));
          units = filter (\<lambda>unit. length (tu_variants unit) > 1) (map (\<lambda>a. h ! a) (tu d))
      in \<lparr> json_tmx = Some
             \<lparr> tmx_attributes = Some attrs0,
               tmx_header = Some \<lparr>header_attributes = Some hattrs, header_prop = hprops\<rparr>,
               tmx_body = Some \<lparr>body_tu = concat (map (\<lambda>unit.
                              case serializeTranslationUnit unit of
                                None \<Rightarrow> []
                              | Some j \<Rightarrow> [j]) units)\<rparr> \<rparr> \<rparr>)"

section \<open>Deserialization\<close>

text \<open>
  The state of \<open>parse\<close> and \<open>deserialize\<close>: the document, the unit store and what the
  logger has received.
\<close>

type_synonym dstate = "tmx \<times> heap \<times> log_entry list"

definition parseHeader :: "jtmx \<Rightarrow> tmx \<Rightarrow> tmx" where
  "parseHeader t d =
     (case tmx_header t of
        None \<Rightarrow> d
      | Some header \<Rightarrow>
          (case header_attributes header of
             None \<Rightarrow> d
           | Some attrs \<Rightarrow>
               let props = fold (\<lambda>prop ps. if truthy (get_prop attrs prop)
                                            then AList.update prop (get_prop attrs prop) ps
                                            else ps)
                             headerAttrs (properties d);
                   d1 = d\<lparr>properties := props\<rparr>;
                   d2 = (case get_prop attrs ''srclang'' of
                           None \<Rightarrow> d1
                         | Some l \<Rightarrow> if l = [] then d1 else d1\<lparr>sourceLocale := l\<rparr>)
               in (case get_prop attrs ''adminlang'' of
                     None \<Rightarrow> d2
                   | Some l \<Rightarrow> if l = [] then d2 else d2\<lparr>adminLocale := l\<rparr>)))"

text \<open>The \<open>prop\<close> children of a \<open>tu\<close>: the local object \<open>properties\<close> and the warnings.\<close>

definition unitProps :: "jtext list \<Rightarrow> jsobject \<times> log_entry list" where
  "unitProps props =
     fold (\<lambda>prop (ps, lg).
             case el_attributes prop of
               None \<Rightarrow> (ps, lg @ [LogWarn ''Found a prop tag without a name attribute''])
             | Some attrs \<Rightarrow>
                 (AList.update (case get_prop attrs ''type'' of
                                  None \<Rightarrow> ''undefined''
                                | Some t \<Rightarrow> t)
                    (el_text prop) ps, lg))
          props ([], [])"

text \<open>
  The \<open>prop\<close> children of a \<open>tuv\<close>, giving \<open>pre\<close> and \<open>post\<close>; reading the type of a
  \<open>prop\<close> without attributes throws.
\<close>

fun contextProps ::
  "jtext list \<Rightarrow> string option \<times> string option \<Rightarrow> js_error + (string option \<times> string option)" where
  "contextProps [] acc = Inr acc"
| "contextProps (prop # ps) (pre, post) =
     (case el_attributes prop of
        None \<Rightarrow> Inl TypeError
      | Some attrs \<Rightarrow>
          if get_prop attrs ''type'' = Some ''x-context-post'' then contextProps ps (pre, el_text prop)
          else if get_prop attrs ''type'' = Some ''x-context-pre'' then contextProps ps (el_text prop, post)
          else contextProps ps (pre, post))"

text \<open>
  \<open>if (pre) { tu.pre = xml2js(pre).seg._text.trimStart() }\<close>: the nested \<open>xml2js\<close>
  followed by \<open>.seg._text\<close> is the parameter \<open>segText\<close>, \<open>None\<close> where that throws. The
  result is the text to store, if any.
\<close>

definition contextText :: "(string \<Rightarrow> string option) \<Rightarrow> string option \<Rightarrow> js_error + string option" where
  "contextText segText c =
     (case c of
        None \<Rightarrow> Inr None
      | Some x \<Rightarrow>
          if x = [] then Inr None
          else (case segText x of None \<Rightarrow> Inl TypeError | Some t \<Rightarrow> Inr (Some (trimStart t))))"

text \<open>The body of \<open>variants.forEach\<close> in \<open>parse\<close>, on the unit under construction.\<close>

definition parseVariant ::
  "(string \<Rightarrow> string option) \<Rightarrow> jtuv \<Rightarrow> tunit \<times> log_entry list
     \<Rightarrow> (unit, tunit \<times> log_entry list) outcome" where
  "parseVariant segText variant = (\<lambda>(u, lg).
     let (locale, lg1) =
           (case tuv_attributes variant of
              None \<Rightarrow>
                (None, lg @ [LogWarn ''Translation variant found without a lang or xml:lang attribute''])
            | Some attrs \<Rightarrow>
                (if truthy (get_prop attrs ''lang'') then get_prop attrs ''lang''
                 else if truthy (get_prop attrs ''xml:lang'') then get_prop attrs ''xml:lang''
                 else None, lg));
         str = (case tuv_seg variant of None \<Rightarrow> None | Some seg \<Rightarrow> el_text seg)
     in (case contextProps (tuv_prop variant) (None, None) of
           Inl e \<Rightarrow> Throw e (u, lg1)
         | Inr (pre, post) \<Rightarrow>
             (let u1 = (if truthy locale \<and> truthy str
                        then (let u' = addVariant \<lparr>tv_locale = locale, tv_string = str\<rparr> u
                              in if locale = tu_sourceLocale u'
                                 then u'\<lparr>tu_source := str, tu_sourceLocale := locale\<rparr>
                                 else u')
                        else u)
              in (case contextText segText pre of
                    Inl e \<Rightarrow> Throw e (u1, lg1)
                  | Inr p \<Rightarrow>
                      (let u2 = (case p of None \<Rightarrow> u1 | Some t \<Rightarrow> u1\<lparr>tu_pre := Some t\<rparr>)
                       in (case contextText segText post of
                             Inl e \<Rightarrow> Throw e (u2, lg1)
                           | Inr q \<Rightarrow>
                               Done () ((case q of None \<Rightarrow> u2 | Some t \<Rightarrow> u2\<lparr>tu_post := Some t\<rparr>),
                                        lg1)))))))"

text \<open>
  One turn of the loop over \<open>tmx.body.tu\<close>, up to the call of \<open>addTranslationUnit\<close>:
  the unit built from a \<open>tu\<close> element.
\<close>

definition parseUnit ::
  "(string \<Rightarrow> string option) \<Rightarrow> tmx \<Rightarrow> jtu \<Rightarrow> log_entry list \<Rightarrow> (unit, tunit \<times> log_entry list) outcome" where
  "parseUnit segText d unit lg =
     (let srclang = (case jtu_attributes unit of None \<Rightarrow> None | Some attrs \<Rightarrow> get_prop attrs ''srclang'');
          u0 = TranslationUnit_empty
                 \<lparr> tu_sourceLocale :=
                     (if truthy srclang then srclang
                      else if sourceLocale d \<noteq> [] then Some (sourceLocale d)
                      else if adminLocale d \<noteq> [] then Some (adminLocale d)
                      else Some ''en''),
                   tu_datatype := get_prop (properties d) ''datatype'' \<rparr>;
          (u1, lg1) = (if jtu_prop unit = [] then (u0, lg)
                       else let (ps, w) = unitProps (jtu_prop unit)
                            in (addProperties ps u0, lg @ w));
          u2 = (case jtu_note unit of None \<Rightarrow> u1 | Some note \<Rightarrow> u1\<lparr>tu_comment := el_text note\<rparr>)
      in forEach (parseVariant segText) (jtu_tuv unit) (u2, lg1))"

definition unitStep :: "(string \<Rightarrow> string option) \<Rightarrow> jtu \<Rightarrow> dstate \<Rightarrow> (unit, dstate) outcome" where
  "unitStep segText unit = (\<lambda>(d, h, lg).
     case parseUnit segText d unit lg of
       Throw e (u, lg') \<Rightarrow> Throw e (d, h, lg')
     | Done r (u, lg') \<Rightarrow>
         let (a, h') = alloc u h;
             (d', h'') = addTranslationUnit a (d, h')
         in Done () (d', h'', lg'))"

text \<open>\<open>parse(tmx)\<close>.\<close>

definition parse :: "(string \<Rightarrow> string option) \<Rightarrow> jtmx \<Rightarrow> dstate \<Rightarrow> (unit, dstate) outcome" where
  "parse segText t = (\<lambda>(d, h, lg).
     let d1 = parseHeader t d
     in case tmx_body t of
          None \<Rightarrow> Done () (d1, h, lg)
        | Some body \<Rightarrow> forEach (unitStep segText) (body_tu body) (d1, h, lg))"

text \<open>
  \<open>deserialize(xml)\<close>, from the tree that \<open>xml2js\<close> returns. It returns \<open>this.tu\<close>, or
  \<open>undefined\<close> (\<open>None\<close>) after the version error. When the root has no attributes the
  argument of \<open>logger.error\<close> reads \<open>json.tmx._attributes.version\<close> and throws.
\<close>

definition deserialize ::
  "(string \<Rightarrow> string option) \<Rightarrow> json \<Rightarrow> dstate \<Rightarrow> (addr list option, dstate) outcome" where
  "deserialize segText js = (\<lambda>(d, h, lg).
     case json_tmx js of
       None \<Rightarrow> Done (Some (tu d)) (d, h, lg)
     | Some t \<Rightarrow>
         (case tmx_attributes t of
            None \<Rightarrow> Throw TypeError (d, h, lg)
          | Some attrs \<Rightarrow>
              if \<not> truthy (get_prop attrs ''version'') \<or> get_prop attrs ''version'' \<noteq> Some ''1.4''
              then Done None
                     (d, h, lg @ [LogError (''Unknown tmx version ''
                        @ (case get_prop attrs ''version'' of None \<Rightarrow> ''undefined'' | Some v \<Rightarrow> v)
                        @ ''. Cannot continue parsing. Can only parse v1.4b files.'')])
              else
                (case parse segText t (d\<lparr>tu := [], tuhash := []\<rparr>, h, lg) of
                   Throw e s \<Rightarrow> Throw e s
                 | Done r (d', h', lg') \<Rightarrow> Done (Some (tu d')) (d', h', lg'))))"

section \<open>Diff and merge\<close>

text \<open>\<open>variantDiff(tu1, tu2)\<close>: the variants of \<open>tu2\<close> whose key no variant of \<open>tu1\<close> has.\<close>

definition variantDiff :: "tunit \<Rightarrow> tunit \<Rightarrow> tvariant list" where
  "variantDiff tu1 tu2 =
     (let variantHash1 = map (\<lambda>variant. (vhashKey variant, variant)) (tu_variants tu1)
      in filter (\<lambda>variant. map_of variantHash1 (vhashKey variant) = None) (tu_variants tu2))"

text \<open>The options \<open>diff\<close> and \<open>merge\<close> pass to \<open>new TMX\<close>.\<close>

definition derivedOptions :: "tmx \<Rightarrow> tmx_options" where
  "derivedOptions d =
     \<lparr> opt_properties = None,
       opt_sourceLocale = Some (sourceLocale d),
       opt_version = Some (version d),
       opt_segmentation = get_prop (properties d) ''segtype'',
       opt_attrs = [(''creationtool'', get_prop (properties d) ''creationtool''),
                    (''creationtoolversion'', get_prop (properties d) ''creationtoolversion'')] \<rparr>"

text \<open>The body of \<open>other.tu.forEach\<close> in \<open>diff\<close>; the state is the new document and the store.\<close>

definition diffStep :: "tmx \<Rightarrow> addr \<Rightarrow> tmx \<times> heap \<Rightarrow> tmx \<times> heap" where
  "diffStep this a = (\<lambda>(difftmx, h).
     case map_of (tuhash this) (hashKey (h ! a)) of
       Some thistu \<Rightarrow>
         let variantdiff = variantDiff (h ! thistu) (h ! a)
         in if variantdiff \<noteq> []
            then let u = h ! a;
                     newTu = addVariants variantdiff
                               (addVariant \<lparr>tv_locale = tu_sourceLocale u, tv_string = tu_source u\<rparr>
                                  (TranslationUnit_new (tu_source u) (tu_sourceLocale u) (tu_target u)
                                     (tu_targetLocale u) (tu_datatype u)));
                     (n, h') = alloc newTu h
                 in addTranslationUnit n (difftmx, h')
            else (difftmx, h)
     | None \<Rightarrow> addTranslationUnit a (difftmx, h))"

text \<open>\<open>this.diff(other)\<close>: the new document and the store after the call.\<close>

definition diff :: "tmx \<Rightarrow> tmx \<Rightarrow> heap \<Rightarrow> tmx \<times> heap" where
  "diff this other h = fold (diffStep this) (tu other) (TMX_new (Some (derivedOptions this)), h)"

text \<open>\<open>mergeVariants(left, right)\<close>, on the references of the two units.\<close>

definition mergeVariants :: "addr \<Rightarrow> addr \<Rightarrow> heap \<Rightarrow> heap" where
  "mergeVariants left right h =
     (let leftVariantHash = map (\<lambda>variant. (vhashKey variant, variant)) (tu_variants (h ! left))
      in h[left := addVariants
                     (filter (\<lambda>variant. map_of leftVariantHash (vhashKey variant) = None)
                        (tu_variants (h ! right)))
                     (h ! left)])"

definition mergeStep :: "addr \<Rightarrow> tmx \<times> heap \<Rightarrow> tmx \<times> heap" where
  "mergeStep a = (\<lambda>(mergetmx, h).
     case map_of (tuhash mergetmx) (hashKey (h ! a)) of
       Some mergeTu \<Rightarrow> (mergetmx, mergeVariants mergeTu a h)
     | None \<Rightarrow> addTranslationUnit a (mergetmx, h))"

text \<open>
  \<open>this.merge(tmxs)\<close> returns the receiver itself when there is nothing to merge and a
  new document otherwise.
\<close>

datatype merged = Receiver | NewTMX tmx

definition merge :: "tmx \<Rightarrow> tmx list \<Rightarrow> heap \<Rightarrow> merged \<times> heap" where
  "merge this tmxs h =
     (if tmxs = [] then (Receiver, h)
      else
        let s0 = addTranslationUnits (tu this) (TMX_new (Some (derivedOptions this)), h);
            (mergetmx, h') = fold (\<lambda>other. fold mergeStep (tu other)) tmxs s0
        in (NewTMX mergetmx, h'))"

section \<open>Documents as objects\<close>

text \<open>
  A document is an object as well: \<open>merge\<close> can return the receiver itself, and a caller
  can pass the same document twice. A world holds the units and the documents allocated
  so far, and a document reference is an index into \<open>w_docs\<close>. \<open>diff\<close> and \<open>merge\<close>
  only read the fields of the documents they are given, so they are the functions above
  applied to the documents the references point to; \<open>new TMX\<close> appends a document.
\<close>

record world =
  w_units :: heap
  w_docs :: "tmx list"

definition diffRef :: "nat \<Rightarrow> nat \<Rightarrow> world \<Rightarrow> nat \<times> world" where
  "diffRef this other w =
     (case diff (w_docs w ! this) (w_docs w ! other) (w_units w) of
        (difftmx, h') \<Rightarrow>
          (length (w_docs w), \<lparr>w_units = h', w_docs = w_docs w @ [difftmx]\<rparr>))"

definition mergeRef :: "nat \<Rightarrow> nat list \<Rightarrow> world \<Rightarrow> nat \<times> world" where
  "mergeRef this tmxs w =
     (case merge (w_docs w ! this) (map (\<lambda>r. w_docs w ! r) tmxs) (w_units w) of
        (Receiver, h') \<Rightarrow> (this, w\<lparr>w_units := h'\<rparr>)
      | (NewTMX mergetmx, h') \<Rightarrow>
          (length (w_docs w), \<lparr>w_units = h', w_docs = w_docs w @ [mergetmx]\<rparr>))"

section \<open>Notions used by the properties\<close>

text \<open>The \<open>tu\<close> elements of the body of a wire tree.\<close>

definition bodyUnits :: "json \<Rightarrow> jtu list" where
  "bodyUnits js =
     (case json_tmx js of
        None \<Rightarrow> []
      | Some t \<Rightarrow> (case tmx_body t of None \<Rightarrow> [] | Some body \<Rightarrow> body_tu body))"

text \<open>The variant keys of a unit and the unit keys of a document.\<close>

definition variantKeys :: "tunit \<Rightarrow> vkey set" where
  "variantKeys u = set (map vhashKey (tu_variants u))"

definition unitKeys :: "tmx \<Rightarrow> heap \<Rightarrow> ukey set" where
  "unitKeys d h = set (map (\<lambda>a. hashKey (h ! a)) (tu d))"

text \<open>Sample units and documents, for the instances below.\<close>

definition unitHello :: tunit where
  "unitHello = addVariant \<lparr>tv_locale = Some ''en'', tv_string = Some ''Hello''\<rparr>
                 (TranslationUnit_new (Some ''Hello'') (Some ''en'') None None (Some ''unknown''))"

definition unitHelloFr :: tunit where
  "unitHelloFr = addVariant \<lparr>tv_locale = Some ''fr'', tv_string = Some ''Bonjour''\<rparr> unitHello"

text \<open>
  The invariant of a document against the store: \<open>tu\<close> and \<open>tuhash\<close> agree. No unit
  is listed twice and no key is indexed twice; every listed unit is a cell of the store
  and is the entry of the index under its own key; every entry of the index is a listed
  unit whose key is the entry's key.
\<close>

definition consistent :: "tmx \<Rightarrow> heap \<Rightarrow> bool" where
  "consistent d h =
     (distinct (tu d) \<and> distinct (map fst (tuhash d))
      \<and> list_all (\<lambda>a. a < length h \<and> map_of (tuhash d) (hashKey (h ! a)) = Some a) (tu d)
      \<and> list_all (\<lambda>(k, a). a \<in> set (tu d) \<and> hashKey (h ! a) = k) (tuhash d))"

definition consistent2 :: "tmx \<times> heap \<Rightarrow> bool" where
  "consistent2 s = consistent (fst s) (snd s)"

definition consistent3 :: "tmx \<times> heap \<times> 'a \<Rightarrow> bool" where
  "consistent3 s = consistent (fst s) (fst (snd s))"

text \<open>A plural resource from English to French, and a resource of one string.\<close>

definition pluralRes :: "(string \<times> string option) list \<Rightarrow> (string \<times> string option) list \<Rightarrow> resource" where
  "pluralRes src tgt =
     \<lparr> res_sourceLocale = Some ''en'', res_targetLocale = Some ''fr'',
       res_dataType = Some ''javascript'', res_context = None, res_flavor = None,
       res_project = Some ''app'', res_content = ResPlural src (Some tgt) \<rparr>"

definition stringRes :: "string \<Rightarrow> string \<Rightarrow> resource" where
  "stringRes src tgt =
     \<lparr> res_sourceLocale = Some ''en'', res_targetLocale = Some ''fr'',
       res_dataType = Some ''javascript'', res_context = None, res_flavor = None,
       res_project = Some ''app'', res_content = ResString (Some src) (Some tgt) \<rparr>"

text \<open>A wire tree whose root \<open>tmx\<close> element has no attribute and an empty body.\<close>

definition bareRoot :: json where
  "bareRoot = \<lparr>json_tmx = Some \<lparr>tmx_attributes = None, tmx_header = None,
                                  tmx_body = Some \<lparr>body_tu = []\<rparr>\<rparr>\<rparr>"

text \<open>
  The units \<open>merge\<close> visits, in the order it visits them: those of the receiver, then
  those of each document to merge.
\<close>

definition visited :: "tmx \<Rightarrow> tmx list \<Rightarrow> addr list" where
  "visited this tmxs = tu this @ concat (map tu tmxs)"

text \<open>The variant keys that the units of key \<open>k\<close> among \<open>xs\<close> carry in the store \<open>h\<close>.\<close>

definition keyVariants :: "heap \<Rightarrow> addr list \<Rightarrow> ukey \<Rightarrow> vkey set" where
  "keyVariants h xs k =
     set (concat (map (\<lambda>b. map vhashKey (tu_variants (h ! b)))
                    (filter (\<lambda>b. hashKey (h ! b) = k) xs)))"

text \<open>
  What holds of the new document \<open>m\<close> and the store \<open>h\<close> once \<open>merge\<close> has visited the
  units \<open>xs\<close>, starting from the store \<open>h0\<close>: no cell was allocated, no key changed and
  every variant list only grew at its end; \<open>m\<close> is consistent and holds units of \<open>xs\<close>,
  one for every key met; a unit outside \<open>m\<close> is untouched; and a unit of \<open>m\<close> is the
  first of \<open>xs\<close> with its key and carries the variant keys of all units of \<open>xs\<close> with
  that key.
\<close>

definition absorbed :: "heap \<Rightarrow> addr list \<Rightarrow> tmx \<times> heap \<Rightarrow> bool" where
  "absorbed h0 xs s =
     (case s of (m, h) \<Rightarrow>
        length h = length h0
        \<and> (\<forall>c < length h0. hashKey (h ! c) = hashKey (h0 ! c)
                            \<and> prefix (tu_variants (h0 ! c)) (tu_variants (h ! c)))
        \<and> consistent m h
        \<and> set (tu m) \<subseteq> set xs
        \<and> (\<forall>a \<in> set xs. \<exists>e \<in> set (tu m). hashKey (h0 ! e) = hashKey (h0 ! a))
        \<and> (\<forall>c < length h0. c \<notin> set (tu m) \<longrightarrow> h ! c = h0 ! c)
        \<and> (\<forall>e \<in> set (tu m).
              variantKeys (h ! e) = keyVariants h0 xs (hashKey (h0 ! e))
              \<and> find (\<lambda>b. hashKey (h0 ! b) = hashKey (h0 ! e)) xs = Some e))"

text \<open>
  The unit \<open>diff\<close> builds for a unit \<open>u\<close> of the other document whose key the receiver
  has on its unit \<open>thistu\<close>: the fields of \<open>u\<close>, the source variant, then the variants of
  \<open>variantDiff\<close>.
\<close>

definition changedUnit :: "tunit \<Rightarrow> tunit \<Rightarrow> tunit" where
  "changedUnit thistu u =
     addVariants (variantDiff thistu u)
       (addVariant \<lparr>tv_locale = tu_sourceLocale u, tv_string = tu_source u\<rparr>
          (TranslationUnit_new (tu_source u) (tu_sourceLocale u) (tu_target u)
             (tu_targetLocale u) (tu_datatype u)))"

text \<open>
  What holds of the new document \<open>dm\<close> and the store \<open>h\<close> once \<open>diff\<close> has visited the
  units \<open>xs\<close> of the other document, starting from the store \<open>h0\<close>: the cells of \<open>h0\<close>
  are untouched; \<open>dm\<close> is consistent and its keys are keys of \<open>xs\<close>; a unit of \<open>dm\<close> is
  either a unit of \<open>xs\<close> whose key the receiver lacks, or a new cell built for a unit of
  \<open>xs\<close> with a non-empty variant difference; and each such unit of \<open>xs\<close> is represented.
\<close>

definition diffed :: "tmx \<Rightarrow> heap \<Rightarrow> addr list \<Rightarrow> tmx \<times> heap \<Rightarrow> bool" where
  "diffed this h0 xs s =
     (case s of (dm, h) \<Rightarrow>
        length h0 \<le> length h
        \<and> (\<forall>c < length h0. h ! c = h0 ! c)
        \<and> consistent dm h
        \<and> (\<forall>e \<in> set (tu dm). hashKey (h ! e) \<in> (\<lambda>a. hashKey (h0 ! a)) ` set xs)
        \<and> (\<forall>e \<in> set (tu dm).
              (e \<in> set xs \<and> map_of (tuhash this) (hashKey (h0 ! e)) = None)
              \<or> (length h0 \<le> e
                  \<and> (\<exists>a \<in> set xs. \<exists>t. map_of (tuhash this) (hashKey (h0 ! a)) = Some t
                         \<and> variantDiff (h0 ! t) (h0 ! a) \<noteq> []
                         \<and> h ! e = changedUnit (h0 ! t) (h0 ! a))))
        \<and> (\<forall>a \<in> set xs.
              case map_of (tuhash this) (hashKey (h0 ! a)) of
                None \<Rightarrow> a \<in> set (tu dm)
              | Some t \<Rightarrow>
                  variantDiff (h0 ! t) (h0 ! a) \<noteq> []
                  \<longrightarrow> (\<exists>e \<in> set (tu dm). length h0 \<le> e
                          \<and> h ! e = changedUnit (h0 ! t) (h0 ! a))))"

text \<open>
  The documents X and Y of the merge example: the same unit key, with the variant
  fr:Bonjour in X and the variants fr:Salut and de:Hallo in Y. Their units are the cells 0
  and 1 of \<open>storeXY\<close>.
\<close>

definition keyHello :: ukey where
  "keyHello = (Some ''en'', Some ''Hello'', Some ''unknown'')"

definition unitX :: tunit where
  "unitX = addVariant \<lparr>tv_locale = Some ''fr'', tv_string = Some ''Bonjour''\<rparr>
             (TranslationUnit_new (Some ''Hello'') (Some ''en'') None None (Some ''unknown''))"

definition unitY :: tunit where
  "unitY = addVariants [\<lparr>tv_locale = Some ''fr'', tv_string = Some ''Salut''\<rparr>,
                        \<lparr>tv_locale = Some ''de'', tv_string = Some ''Hallo''\<rparr>]
             (TranslationUnit_new (Some ''Hello'') (Some ''en'') None None (Some ''unknown''))"

definition storeXY :: heap where
  "storeXY = [unitX, unitY]"

definition docX :: tmx where
  "docX = TMX_default\<lparr>tu := [0], tuhash := [(keyHello, 0)]\<rparr>"

definition docY :: tmx where
  "docY = TMX_default\<lparr>tu := [1], tuhash := [(keyHello, 1)]\<rparr>"

definition worldXY :: world where
  "worldXY = \<lparr>w_units = storeXY, w_docs = [docX, docY]\<rparr>"

text \<open>
  The source that \<open>parse\<close> gives a unit of source locale \<open>sl\<close>: the string of the last
  variant in that locale, undefined when there is none.
\<close>

definition lastSource :: "string option \<Rightarrow> tvariant list \<Rightarrow> string option" where
  "lastSource sl vs = fold (\<lambda>v acc. if tv_locale v = sl then tv_string v else acc) vs None"

text \<open>
  The units and documents that a round trip through the wire tree reproduces. A unit: at
  least 2 variants with distinct keys, each with a non-empty locale and string; a
  non-empty source locale; the datatype \<open>dt\<close> of the document's header; and, as source,
  the string of its last variant in its source locale. A document: version 1.4, a
  non-empty header datatype, no two listed units of the same key, and only such units.
\<close>

definition unitRoundTrips :: "string option \<Rightarrow> tunit \<Rightarrow> bool" where
  "unitRoundTrips dt u =
     (2 \<le> length (tu_variants u)
      \<and> distinct (map vhashKey (tu_variants u))
      \<and> list_all (\<lambda>v. truthy (tv_locale v) \<and> truthy (tv_string v)) (tu_variants u)
      \<and> truthy (tu_sourceLocale u)
      \<and> tu_datatype u = dt
      \<and> tu_source u = lastSource (tu_sourceLocale u) (tu_variants u))"

definition roundTrips :: "tmx \<Rightarrow> heap \<Rightarrow> bool" where
  "roundTrips d h =
     (versionString (version d) = ''1.4''
      \<and> truthy (get_prop (properties d) ''datatype'')
      \<and> distinct (map (\<lambda>a. hashKey (h ! a)) (tu d))
      \<and> list_all (\<lambda>a. unitRoundTrips (get_prop (properties d) ''datatype'') (h ! a)) (tu d))"

text \<open>
  What one turn of \<open>variants.forEach\<close> in \<open>parse\<close> does to the unit under construction
  when the \<open>tuv\<close> element is the serialized variant \<open>v\<close>.
\<close>

definition readVariant :: "tvariant \<Rightarrow> tunit \<Rightarrow> tunit" where
  "readVariant v u =
     (let u' = addVariant v u
      in if tv_locale v = tu_sourceLocale u'
         then u'\<lparr>tu_source := tv_string v, tu_sourceLocale := tv_locale v\<rparr>
         else u')"

text \<open>
  Documents of one unit, for the round trip: the unit that \<open>addResource\<close> builds for
  the string resource Hello/Bonjour of datatype javascript; a unit with an empty
  translation; a unit whose variants do not include its source; and the document of
  version 2 that holds the unit Hello/Bonjour of datatype unknown.
\<close>

definition unitJs :: tunit where
  "unitJs = segmentUnit (stringRes ''Hello'' ''Bonjour'') ''Hello''
              (Some \<lparr>tv_locale = Some ''fr'', tv_string = Some ''Bonjour''\<rparr>)"

definition unitEmptyFr :: tunit where
  "unitEmptyFr = addVariant \<lparr>tv_locale = Some ''fr'', tv_string = Some []\<rparr> unitHello"

definition unitNoSource :: tunit where
  "unitNoSource = addVariant \<lparr>tv_locale = Some ''de'', tv_string = Some ''Hallo''\<rparr> unitX"

definition docOf :: "tunit \<Rightarrow> tmx" where
  "docOf u = TMX_default\<lparr>tu := [0], tuhash := [(hashKey u, 0)]\<rparr>"

definition docV2 :: tmx where
  "docV2 = (docOf unitHelloFr)\<lparr>version := ''2''\<rparr>"

text \<open>
  More documents of one unit: Hello/Bonjour with a third variant that has no locale;
  Hello/Bonjour built without source and source locale; and Hello/Bonjour built without
  datatype, in a document constructed with the empty object as \<open>properties\<close>.
\<close>

definition unitNoLang :: tunit where
  "unitNoLang = addVariant \<lparr>tv_locale = None, tv_string = Some ''Salut''\<rparr> unitHelloFr"

definition unitNoSrcLocale :: tunit where
  "unitNoSrcLocale =
     addVariants [\<lparr>tv_locale = Some ''en'', tv_string = Some ''Hello''\<rparr>,
                  \<lparr>tv_locale = Some ''fr'', tv_string = Some ''Bonjour''\<rparr>]
       (TranslationUnit_new None None None None (Some ''unknown''))"

definition unitPlain :: tunit where
  "unitPlain =
     addVariants [\<lparr>tv_locale = Some ''en'', tv_string = Some ''Hello''\<rparr>,
                  \<lparr>tv_locale = Some ''fr'', tv_string = Some ''Bonjour''\<rparr>]
       (TranslationUnit_new (Some ''Hello'') (Some ''en'') None None None)"

definition docPlain :: tmx where
  "docPlain =
     (TMX_new (Some \<lparr>opt_properties = Some [], opt_sourceLocale = None, opt_version = None,
                      opt_segmentation = None, opt_attrs = []\<rparr>))
       \<lparr>tu := [0], tuhash := [(hashKey unitPlain, 0)]\<rparr>"

text \<open>
  The documents A and B of the diff example are \<open>docX\<close> and \<open>docY\<close> over \<open>storeAB\<close>:
  the same unit key, with the variants en:Hello and fr:Bonjour in A and the variants
  en:Hello, fr:Salut and de:Hallo in B.
\<close>

definition unitB :: tunit where
  "unitB = addVariants [\<lparr>tv_locale = Some ''fr'', tv_string = Some ''Salut''\<rparr>,
                        \<lparr>tv_locale = Some ''de'', tv_string = Some ''Hallo''\<rparr>] unitHello"

definition storeAB :: heap where
  "storeAB = [unitHelloFr, unitB]"

text \<open>
  A document whose unit list holds the two units of the store, \<open>storeXY\<close> or
  \<open>storeAB\<close>, which have the same key: its list and index do not agree.
\<close>

definition docTwice :: tmx where
  "docTwice = TMX_default\<lparr>tu := [0, 1], tuhash := [(keyHello, 0)]\<rparr>"

text \<open>
  A unit \<open>u'\<close> extends a unit \<open>u\<close> when it is \<open>u\<close> with variants appended at the end
  of its variant list: every other field is the same, and the variants of \<open>u\<close> are still
  there, unchanged and in place.
\<close>

definition extended :: "tunit \<Rightarrow> tunit \<Rightarrow> bool" where
  "extended u u' = (u'\<lparr>tu_variants := tu_variants u\<rparr> = u \<and> prefix (tu_variants u) (tu_variants u'))"

text \<open>
  The world of the empty document and \<open>docTwice\<close>, over the units of \<open>storeXY\<close>.
\<close>

definition worldTwice :: world where
  "worldTwice = \<lparr>w_units = storeXY, w_docs = [TMX_default, docTwice]\<rparr>"

section \<open>Verified properties\<close>

subsection \<open>Variants of a unit\<close>

lemma addVariant_absorb:
  "vhashKey v \<in> vhashKey ` set (tu_variants u) \<Longrightarrow> addVariant v u = u"
  by (simp add: addVariant_def)

lemma vkeys_addVariant:
  "vhashKey ` set (tu_variants (addVariant v u)) = insert (vhashKey v) (vhashKey ` set (tu_variants u))"
  by (auto simp: addVariant_def)

lemma vkeys_addVariants:
  "vhashKey ` set (tu_variants (addVariants vs u)) = vhashKey ` set (tu_variants u) \<union> vhashKey ` set vs"
  unfolding addVariants_def
  by (induction vs arbitrary: u) (auto simp: vkeys_addVariant)

lemma addVariants_absorb:
  "vhashKey ` set vs \<subseteq> vhashKey ` set (tu_variants u) \<Longrightarrow> addVariants vs u = u"
  unfolding addVariants_def
  by (induction vs arbitrary: u) (auto simp: addVariant_absorb)

lemma addVariants_idem: "addVariants vs (addVariants vs u) = addVariants vs u"
  by (rule addVariants_absorb) (simp add: vkeys_addVariants)

lemma addVariants_self: "addVariants (tu_variants u) u = u"
  by (rule addVariants_absorb) simp

lemma hashKey_addVariant [simp]: "hashKey (addVariant v u) = hashKey u"
  by (simp add: addVariant_def hashKey_def)

lemma hashKey_addVariants [simp]: "hashKey (addVariants vs u) = hashKey u"
  unfolding addVariants_def
  by (induction vs arbitrary: u) auto

lemma nth_update_eq: "h[e := x] ! j = (if e = j \<and> e < length h then x else h ! j)"
  by (cases "e < length h") (auto simp: nth_list_update list_update_beyond)

subsection \<open>Adding a unit twice\<close>

lemma addTranslationUnit_twice:
  assumes "h ! unit' = h ! unit"
  shows "addTranslationUnit unit' (addTranslationUnit unit (d, h)) = addTranslationUnit unit (d, h)"
proof (cases "map_of (tuhash d) (hashKey (h ! unit))")
  case None
  then have s1: "addTranslationUnit unit (d, h) =
      (d\<lparr>tu := tu d @ [unit], tuhash := AList.update (hashKey (h ! unit)) unit (tuhash d)\<rparr>, h)"
    by (simp add: addTranslationUnit_def)
  have "h[unit := addVariants (tu_variants (h ! unit')) (h ! unit)] = h"
    using assms by (simp add: addVariants_self)
  then show ?thesis
    unfolding s1 using assms by (simp add: addTranslationUnit_def update_conv')
next
  case (Some e)
  let ?h1 = "h[e := addVariants (tu_variants (h ! unit)) (h ! e)]"
  have s1: "addTranslationUnit unit (d, h) = (d, ?h1)"
    using Some by (simp add: addTranslationUnit_def)
  have u': "?h1 ! unit' = h ! unit"
    using assms by (auto simp: nth_update_eq addVariants_self)
  have "?h1[e := addVariants (tu_variants (h ! unit)) (?h1 ! e)] = ?h1"
    by (cases "e < length h") (simp_all add: addVariants_idem list_update_beyond)
  then show ?thesis
    unfolding s1 using Some u' by (simp add: addTranslationUnit_def)
qed

text \<open>
  C4. After \<open>addTranslationUnit(u)\<close>, adding the identical unit again (the same object, or
  one with the same content) changes nothing: \<open>size()\<close> is the same, and every stored
  unit has the same list of variant keys as after the first call, so the same set of keys
  and no new duplicate. The document and the store are in fact left as they were.
\<close>

theorem addTranslationUnit_idempotent:
  assumes "h ! unit' = h ! unit"
  shows "case addTranslationUnit unit (d, h) of (d1, h1) \<Rightarrow>
           case addTranslationUnit unit' (d1, h1) of (d2, h2) \<Rightarrow>
             size_tmx d2 = size_tmx d1
             \<and> (\<forall>a. map vhashKey (tu_variants (h2 ! a)) = map vhashKey (tu_variants (h1 ! a)))
             \<and> (\<forall>a. variantKeys (h2 ! a) = variantKeys (h1 ! a))
             \<and> d2 = d1 \<and> h2 = h1"
  using addTranslationUnit_twice [OF assms, of d]
  by (auto split: prod.splits)

theorem addTranslationUnit_idempotent_witness:
  "[unitHelloFr] ! 0 = [unitHelloFr] ! 0
   \<and> addTranslationUnit 0 (addTranslationUnit 0 (TMX_default, [unitHelloFr]))
       = addTranslationUnit 0 (TMX_default, [unitHelloFr])
   \<and> size_tmx (fst (addTranslationUnit 0 (addTranslationUnit 0 (TMX_default, [unitHelloFr])))) = 1"
  using addTranslationUnit_idempotent [of "[unitHelloFr]" 0 0 TMX_default]
  by (auto simp: addTranslationUnit_def TMX_default_def size_tmx_def split: prod.splits)

subsection \<open>Serialization drops units without a translation\<close>

lemma concat_single_units:
  "map Some (concat (map (\<lambda>unit. case serializeTranslationUnit unit of None \<Rightarrow> [] | Some j \<Rightarrow> [j])
            (filter (\<lambda>unit. length (tu_variants unit) > 1) us)))
   = map serializeTranslationUnit (filter (\<lambda>u. 2 \<le> length (tu_variants u)) us)"
  by (induction us) (auto simp: serializeTranslationUnit_def)

lemma bodyUnits_serialize:
  "bodyUnits (serialize pv d h) =
     concat (map (\<lambda>unit. case serializeTranslationUnit unit of None \<Rightarrow> [] | Some j \<Rightarrow> [j])
            (filter (\<lambda>unit. length (tu_variants unit) > 1) (map (\<lambda>a. h ! a) (tu d))))"
  by (simp add: bodyUnits_def serialize_def Let_def)

text \<open>
  C7. The \<open>tu\<close> elements of the serialized body are, in order, the elements of exactly
  the units that have at least 2 variants; a unit with fewer gets none, and a document
  whose units all have exactly one variant serializes to a body without \<open>tu\<close> elements.
\<close>

theorem serialize_drop_rule:
  "map Some (bodyUnits (serialize pv d h)) =
     map serializeTranslationUnit
       (filter (\<lambda>u. 2 \<le> length (tu_variants u)) (map (\<lambda>a. h ! a) (tu d)))
   \<and> ((\<forall>a \<in> set (tu d). length (tu_variants (h ! a)) = 1) \<longrightarrow> bodyUnits (serialize pv d h) = [])"
proof -
  have "filter (\<lambda>u. 2 \<le> length (tu_variants u)) (map (\<lambda>a. h ! a) (tu d)) = []"
    if "\<forall>a \<in> set (tu d). length (tu_variants (h ! a)) = 1"
    using that by (auto simp: filter_empty_conv)
  then show ?thesis
    using concat_single_units [of "map (\<lambda>a. h ! a) (tu d)"]
    by (simp add: bodyUnits_serialize)
qed

theorem serialize_drop_rule_witness:
  "list_all (\<lambda>a. length (tu_variants ([unitHello, unitHelloFr] ! a)) = 1) (tu (TMX_default\<lparr>tu := [0]\<rparr>))
   \<and> bodyUnits (serialize None (TMX_default\<lparr>tu := [0]\<rparr>) [unitHello, unitHelloFr]) = []
   \<and> length (bodyUnits (serialize None (TMX_default\<lparr>tu := [0, 1]\<rparr>) [unitHello, unitHelloFr])) = 1"
  using serialize_drop_rule [of None "TMX_default\<lparr>tu := [0]\<rparr>" "[unitHello, unitHelloFr]"]
    serialize_drop_rule [of None "TMX_default\<lparr>tu := [0, 1]\<rparr>" "[unitHello, unitHelloFr]",
      THEN conjunct1, THEN arg_cong, of length]
  by (simp add: unitHello_def unitHelloFr_def addVariant_def TranslationUnit_new_def
      TranslationUnit_empty_def vhashKey_def)

subsection \<open>Deserializing a tree without a tmx root\<close>

text \<open>
  C10. When the parsed input has no \<open>tmx\<close> root, \<open>deserialize\<close> leaves the document
  (units, index, properties, locales) and the store as they were, logs nothing, and
  returns the existing unit list.
\<close>

theorem deserialize_without_root:
  assumes "json_tmx js = None"
  shows "deserialize segText js (d, h, lg) = Done (Some (tu d)) (d, h, lg)"
  using assms by (simp add: deserialize_def)

theorem deserialize_without_root_witness:
  "json_tmx \<lparr>json_tmx = None\<rparr> = None
   \<and> deserialize (\<lambda>x. None) \<lparr>json_tmx = None\<rparr> (TMX_default\<lparr>tu := [0]\<rparr>, [unitHello], [])
       = Done (Some [0]) (TMX_default\<lparr>tu := [0]\<rparr>, [unitHello], [])"
  using deserialize_without_root
    [of "\<lparr>json_tmx = None\<rparr>" "\<lambda>x. None" "TMX_default\<lparr>tu := [0]\<rparr>" "[unitHello]" "[]"]
  by simp

subsection \<open>The unit list and the index agree\<close>

lemma consistentI:
  assumes "distinct (tu d)" "distinct (map fst (tuhash d))"
    "\<And>a. a \<in> set (tu d) \<Longrightarrow> a < length h \<and> map_of (tuhash d) (hashKey (h ! a)) = Some a"
    "\<And>k a. map_of (tuhash d) k = Some a \<Longrightarrow> a \<in> set (tu d) \<and> hashKey (h ! a) = k"
  shows "consistent d h"
proof -
  have "a \<in> set (tu d) \<and> hashKey (h ! a) = k" if "(k, a) \<in> set (tuhash d)" for k a
    using assms(4) [of k a] map_of_is_SomeI [OF assms(2) that] by simp
  then show ?thesis
    using assms(1-3) unfolding consistent_def list_all_iff by blast
qed

lemma consistentD:
  assumes "consistent d h"
  shows "distinct (tu d)" "distinct (map fst (tuhash d))"
    "\<And>a. a \<in> set (tu d) \<Longrightarrow> a < length h"
    "\<And>a. a \<in> set (tu d) \<Longrightarrow> map_of (tuhash d) (hashKey (h ! a)) = Some a"
    "\<And>k a. map_of (tuhash d) k = Some a \<Longrightarrow> a \<in> set (tu d)"
    "\<And>k a. map_of (tuhash d) k = Some a \<Longrightarrow> hashKey (h ! a) = k"
  using assms unfolding consistent_def list_all_iff
  by (auto dest: map_of_SomeD)

lemma consistent_heap_change:
  assumes "consistent d h" "length h \<le> length h'"
    "\<And>a. a \<in> set (tu d) \<Longrightarrow> hashKey (h' ! a) = hashKey (h ! a)"
  shows "consistent d h'"
proof (rule consistentI)
  show "distinct (tu d)" "distinct (map fst (tuhash d))" using assms(1) by (auto dest: consistentD)
next
  fix a assume "a \<in> set (tu d)"
  then show "a < length h' \<and> map_of (tuhash d) (hashKey (h' ! a)) = Some a"
    using consistentD(3,4)[OF assms(1), of a] assms(2,3) by auto
next
  fix k a assume "map_of (tuhash d) k = Some a"
  then show "a \<in> set (tu d) \<and> hashKey (h' ! a) = k"
    using consistentD(5,6)[OF assms(1), of k a] assms(3) by auto
qed

lemma consistent_alloc: "consistent d h \<Longrightarrow> consistent d (h @ [u])"
  by (rule consistent_heap_change) (auto dest: consistentD(3) simp: nth_append)

lemma consistent_update:
  "consistent d h \<Longrightarrow> hashKey x = hashKey (h ! e) \<Longrightarrow> consistent d (h[e := x])"
  by (rule consistent_heap_change) (auto simp: nth_update_eq)

lemma consistent_addTranslationUnit:
  assumes "consistent d h" "unit < length h"
  shows "case addTranslationUnit unit (d, h) of (d', h') \<Rightarrow> consistent d' h'"
proof (cases "map_of (tuhash d) (hashKey (h ! unit))")
  case (Some e)
  then show ?thesis
    using assms by (simp add: addTranslationUnit_def consistent_update)
next
  case None
  have notin: "unit \<notin> set (tu d)"
    using consistentD(4)[OF assms(1), of unit] None by auto
  let ?d = "d\<lparr>tu := tu d @ [unit], tuhash := AList.update (hashKey (h ! unit)) unit (tuhash d)\<rparr>"
  have "consistent ?d h"
  proof (rule consistentI)
    show "distinct (tu ?d)" using consistentD(1)[OF assms(1)] notin by simp
    show "distinct (map fst (tuhash ?d))"
      using consistentD(2)[OF assms(1)] by (simp add: distinct_update)
  next
    fix a assume "a \<in> set (tu ?d)"
    then show "a < length h \<and> map_of (tuhash ?d) (hashKey (h ! a)) = Some a"
      using consistentD(3,4)[OF assms(1), of a] assms(2) None
      by (auto simp: update_conv')
  next
    fix k a assume "map_of (tuhash ?d) k = Some a"
    then show "a \<in> set (tu ?d) \<and> hashKey (h ! a) = k"
      using consistentD(5,6)[OF assms(1), of k a]
      by (auto simp: update_conv' split: if_splits)
  qed
  then show ?thesis using None by (simp add: addTranslationUnit_def)
qed

lemma consistent_add_new:
  assumes "consistent d h"
  shows "case addTranslationUnit (length h) (d, h @ [u]) of (d', h') \<Rightarrow> consistent d' h'"
  by (rule consistent_addTranslationUnit) (simp_all add: consistent_alloc assms)

lemma forEach_invariant:
  assumes "\<And>x s. x \<in> set xs \<Longrightarrow> P s \<Longrightarrow> P (state_of (f x s))" "P s"
  shows "P (state_of (forEach f xs s))"
  using assms
proof (induction xs arbitrary: s)
  case Nil
  then show ?case by simp
next
  case (Cons x xs)
  show ?case
  proof (cases "f x s")
    case (Done r s')
    then have "P s'" using Cons.prems(1)[of x s] Cons.prems(2) by simp
    then show ?thesis using Done Cons.IH[of s'] Cons.prems(1) by simp
  next
    case (Throw e s')
    then show ?thesis using Cons.prems(1)[of x s] Cons.prems(2) by simp
  qed
qed


lemma forEach_consistent2:
  assumes "\<And>x s. consistent2 s \<Longrightarrow> consistent2 (state_of (f x s))" "consistent2 s"
  shows "consistent2 (state_of (forEach f xs s))"
  using assms by (intro forEach_invariant [where P = consistent2])

lemma forEach_consistent3:
  assumes "\<And>x s. consistent3 s \<Longrightarrow> consistent3 (state_of (f x s))" "consistent3 s"
  shows "consistent3 (state_of (forEach f xs s))"
  using assms by (intro forEach_invariant [where P = consistent3])

lemma consistent2_add_new:
  "consistent d h \<Longrightarrow> consistent2 (addTranslationUnit (length h) (d, h @ [u]))"
  using consistent_add_new [of d h u] by (auto simp: consistent2_def split: prod.splits)

lemma stringStep_consistent:
  "consistent2 s \<Longrightarrow> consistent2 (state_of (stringStep res addT tgt ts x s))"
proof -
  obtain d h where s: "s = (d, h)" by (cases s) auto
  obtain i str where x: "x = (i, str)" by (cases x) auto
  assume "consistent2 s"
  then have c: "consistent d h" by (simp add: consistent2_def s)
  show ?thesis
    unfolding stringStep_def s x
    by (simp add: alloc_def Let_def consistent2_add_new [OF c])
qed

lemma arrayStep_consistent:
  "consistent2 s \<Longrightarrow> consistent2 (state_of (arrayStep res addT tarArr i x s))"
proof -
  obtain d h where s: "s = (d, h)" by (cases s) auto
  obtain j str where x: "x = (j, str)" by (cases x) auto
  assume c2: "consistent2 s"
  then have c: "consistent d h" by (simp add: consistent2_def s)
  show ?thesis
    using c2 unfolding arrayStep_def s x
    by (simp add: alloc_def Let_def consistent2_add_new [OF c])
qed

lemma consistent3_add_new:
  "consistent d h \<Longrightarrow>
   consistent3 (state_of (case addTranslationUnit (length h) (d, h @ [u]) of
                            (d', h'') \<Rightarrow> Done () (d', h'', x)))"
  using consistent2_add_new [of d h u]
  by (auto simp: consistent2_def consistent3_def split: prod.splits)

lemma pluralStep_consistent:
  "consistent3 s \<Longrightarrow> consistent3 (state_of (pluralStep res addT tarPlurals category x s))"
proof -
  obtain d h other where s: "s = (d, h, other)" by (cases s) auto
  obtain i str where x: "x = (i, str)" by (cases x) auto
  assume "consistent3 s"
  then have c: "consistent d h" by (simp add: consistent3_def s)
  show ?thesis
    unfolding pluralStep_def s x
    by (simp add: alloc_def Let_def consistent3_add_new [OF c])
qed

lemma extraStep_consistent:
  "consistent3 s \<Longrightarrow> consistent3 (state_of (extraStep res x s))"
  by (cases s; cases x)
    (auto simp: extraStep_def consistent3_def consistent_update split: option.splits)

lemma extraCategory_consistent:
  "consistent3 s \<Longrightarrow> consistent3 (state_of (extraCategory res srcPlurals x s))"
  by (cases x) (simp add: extraCategory_def forEach_consistent3 extraStep_consistent)

lemma state_of_drop_other:
  "consistent3 (state_of r) \<Longrightarrow> consistent2 (state_of (drop_other r))"
  by (cases r rule: drop_other.cases) (auto simp: consistent2_def consistent3_def)

lemma pluralLoops_consistent:
  assumes "consistent3 s0"
  shows "consistent2 (state_of (drop_other
           (case forEach (\<lambda>(category, segs).
                    forEach (pluralStep res addT tp category) (enumerate 0 segs)) sp s0
            of Throw e s \<Rightarrow> Throw e s
             | Done r s \<Rightarrow>
                 (case tq of
                    None \<Rightarrow> Done () s
                  | Some t \<Rightarrow> forEach (extraCategory res sp') t s))))"
proof -
  let ?first = "forEach (\<lambda>(category, segs).
                    forEach (pluralStep res addT tp category) (enumerate 0 segs)) sp s0"
  have first: "consistent3 (state_of ?first)"
    by (rule forEach_consistent3)
      (auto simp: assms intro: forEach_consistent3 pluralStep_consistent)
  have "consistent3 (state_of
          (case ?first of Throw e s \<Rightarrow> Throw e s
           | Done r s \<Rightarrow>
               (case tq of
                  None \<Rightarrow> Done () s
                | Some t \<Rightarrow> forEach (extraCategory res sp') t s)))"
    using first
    by (cases ?first)
      (auto split: option.splits intro: forEach_consistent3 extraCategory_consistent)
  then show ?thesis by (rule state_of_drop_other)
qed

lemma arrayLoops_consistent:
  assumes "consistent2 s0"
  shows "consistent2 (state_of (forEach (\<lambda>(i, element).
           forEach (arrayStep res addT tarArr i) (enumerate 0 element)) xs s0))"
  by (rule forEach_consistent2)
    (auto simp: assms intro: forEach_consistent2 arrayStep_consistent)

lemma addResource_consistent:
  assumes "consistent d h"
  shows "consistent2 (state_of (addResource sentenceSplit resource (d, h)))"
proof (cases resource)
  case None
  then show ?thesis using assms by (simp add: addResource_def consistent2_def)
next
  case (Some res)
  have c2: "consistent2 (d, h)" using assms by (simp add: consistent2_def)
  have c3: "consistent3 (d, h, [])" using assms by (simp add: consistent3_def)
  show ?thesis
    using Some
    by (cases "res_content res")
      (simp_all add: addResource_def Let_def c2 forEach_consistent2 stringStep_consistent
        arrayLoops_consistent pluralLoops_consistent [OF c3])
qed

lemma parseHeader_units [simp]:
  "tu (parseHeader t d) = tu d" "tuhash (parseHeader t d) = tuhash d"
  by (auto simp: parseHeader_def Let_def split: option.splits)

lemma consistent_parseHeader: "consistent (parseHeader t d) h = consistent d h"
  by (simp add: consistent_def)

lemma unitStep_consistent:
  "consistent3 s \<Longrightarrow> consistent3 (state_of (unitStep segText unit s))"
proof -
  obtain d h lg where s: "s = (d, h, lg)" by (cases s) auto
  assume c3: "consistent3 s"
  then have c: "consistent d h" by (simp add: consistent3_def s)
  show ?thesis
  proof (cases "parseUnit segText d unit lg")
    case (Done r p)
    then show ?thesis
      unfolding unitStep_def s
      by (cases p) (simp add: alloc_def consistent3_add_new [OF c])
  next
    case (Throw e p)
    then show ?thesis
      using c unfolding unitStep_def s
      by (cases p) (simp add: consistent3_def)
  qed
qed

lemma parse_consistent:
  "consistent3 s \<Longrightarrow> consistent3 (state_of (parse segText t s))"
proof -
  obtain d h lg where s: "s = (d, h, lg)" by (cases s) auto
  assume "consistent3 s"
  then have "consistent3 (parseHeader t d, h, lg)"
    by (simp add: consistent3_def s consistent_parseHeader)
  then show ?thesis
    by (auto simp: parse_def s Let_def split: option.splits
        intro: forEach_consistent3 unitStep_consistent)
qed

lemma consistent_cleared: "consistent (d\<lparr>tu := [], tuhash := []\<rparr>) h"
  by (simp add: consistent_def)

lemma deserialize_consistent:
  assumes "consistent d h"
  shows "consistent3 (state_of (deserialize segText js (d, h, lg)))"
proof -
  have p: "consistent3 (state_of (parse segText t (d\<lparr>tu := [], tuhash := []\<rparr>, h, lg)))" for t
    by (rule parse_consistent) (simp add: consistent3_def consistent_cleared)
  have "consistent3 (state_of (case parse segText t (d\<lparr>tu := [], tuhash := []\<rparr>, h, lg) of
                   Throw e s \<Rightarrow> Throw e s
                 | Done r (d', h', lg') \<Rightarrow> Done (Some (tu d')) (d', h', lg')))" for t
    using p [of t]
    by (cases "parse segText t (d\<lparr>tu := [], tuhash := []\<rparr>, h, lg)") auto
  then show ?thesis
    using assms
    by (auto simp: deserialize_def consistent3_def split: option.splits)
qed

text \<open>
  C9. Each operation that writes a document's unit storage keeps \<open>tu\<close> and \<open>tuhash\<close>
  in agreement: \<open>addTranslationUnit\<close> of a unit of the store, \<open>addResource\<close> and
  \<open>deserialize\<close>, also when they end by a throw.
\<close>

theorem storage_operations_keep_index:
  assumes "consistent d h"
  shows "(unit < length h \<longrightarrow> consistent2 (addTranslationUnit unit (d, h)))
         \<and> consistent2 (state_of (addResource sentenceSplit resource (d, h)))
         \<and> consistent3 (state_of (deserialize segText js (d, h, lg)))"
  using consistent_addTranslationUnit [OF assms, of unit]
    addResource_consistent [OF assms] deserialize_consistent [OF assms]
  by (auto simp: consistent2_def split: prod.splits)

theorem storage_operations_keep_index_witness:
  "consistent TMX_default [unitHelloFr]
   \<and> tu (fst (addTranslationUnit 0 (TMX_default, [unitHelloFr]))) = [0]
   \<and> consistent2 (addTranslationUnit 0 (TMX_default, [unitHelloFr]))
   \<and> consistent2 (state_of (addResource (\<lambda>s l. [s]) (Some (stringRes ''Hello'' ''Bonjour''))
                     (TMX_default, [unitHelloFr])))
   \<and> consistent3 (state_of (deserialize (\<lambda>x. None) bareRoot (TMX_default, [unitHelloFr], [])))"
proof -
  have c: "consistent TMX_default [unitHelloFr]"
    by (simp add: consistent_def TMX_default_def)
  have "tu (fst (addTranslationUnit 0 (TMX_default, [unitHelloFr]))) = [0]"
    by (simp add: addTranslationUnit_def TMX_default_def)
  then show ?thesis
    using c storage_operations_keep_index [OF c, of 0 "\<lambda>s l. [s]"
        "Some (stringRes ''Hello'' ''Bonjour'')" "\<lambda>x. None" bareRoot "[]"]
    by simp
qed

subsection \<open>Deserializing a tree whose version is not 1.4\<close>

text \<open>
  When the root has attributes and its version is not the text \<open>1.4\<close>, the document and
  the store stay as they were, one error is logged and \<open>undefined\<close> is returned.
\<close>

lemma deserialize_version_mismatch:
  assumes "json_tmx js = Some t" "tmx_attributes t = Some attrs"
    "get_prop attrs ''version'' \<noteq> Some ''1.4''"
  shows "\<exists>msg. deserialize segText js (d, h, lg) = Done None (d, h, lg @ [LogError msg])"
  using assms by (simp add: deserialize_def)

text \<open>
  C3. When the root \<open>tmx\<close> element has no attribute at all, its version is not \<open>1.4\<close>
  either, but no error is logged: the message of \<open>logger.error\<close> reads
  \<open>json.tmx._attributes.version\<close> and the call ends by a TypeError. The document and the
  store stay as they were.
\<close>

theorem deserialize_root_without_attributes:
  "deserialize segText bareRoot (d, h, lg) = Throw TypeError (d, h, lg)"
  by (simp add: deserialize_def bareRoot_def)

theorem deserialize_root_without_attributes_witness:
  "deserialize (\<lambda>x. None) bareRoot (TMX_default, [unitHelloFr], [])
     = Throw TypeError (TMX_default, [unitHelloFr], [])"
  using deserialize_root_without_attributes [of "\<lambda>x. None" TMX_default "[unitHelloFr]" "[]"]
  by simp

subsection \<open>Plural categories that only the target has\<close>

text \<open>
  The case of the specification: the target has the extra category \<open>few\<close>. Two units
  are stored, and the unit of \<open>other\<close> receives the translation of \<open>few\<close> as a third
  variant.
\<close>

lemma addResource_extra_category:
  "case addResource sentenceSplit
          (Some (pluralRes [(''one'', Some ''1 item''), (''other'', Some ''N items'')]
                   [(''one'', Some ''1 element''), (''few'', Some ''Q elements''),
                    (''other'', Some ''N elements'')]))
          (TMX_default, [])
   of Done r (d, h) \<Rightarrow>
        tu d = [0, 1]
        \<and> map tu_variants h =
            [[\<lparr>tv_locale = Some ''en'', tv_string = Some ''1 item''\<rparr>,
              \<lparr>tv_locale = Some ''fr'', tv_string = Some ''1 element''\<rparr>],
             [\<lparr>tv_locale = Some ''en'', tv_string = Some ''N items''\<rparr>,
              \<lparr>tv_locale = Some ''fr'', tv_string = Some ''N elements''\<rparr>,
              \<lparr>tv_locale = Some ''fr'', tv_string = Some ''Q elements''\<rparr>]]
    | Throw e s \<Rightarrow> False"
  by (simp add: addResource_def pluralRes_def TMX_default_def addTarget_def truthy_def Let_def
      segmentString_def get_prop_def objectMap_def pluralStep_def extraCategory_def extraStep_def
      alloc_def segmentUnit_def at_index_def addTranslationUnit_def TranslationUnit_new_def
      TranslationUnit_empty_def addVariant_def addProperties_def resProperties_def vhashKey_def
      hashKey_def enumerate_eq_zip upt_rec)

text \<open>
  C8. A plural resource whose source has no category \<open>other\<close> and whose target has the
  extra category \<open>few\<close>: there is no unit of \<open>other\<close> to attach the translation of
  \<open>few\<close> to, \<open>other[0]\<close> is undefined and the call ends by a TypeError, after the unit
  of \<open>one\<close> was stored. The translation of \<open>few\<close> is attached nowhere.
\<close>

theorem addResource_extra_category_without_other:
  "case addResource sentenceSplit
          (Some (pluralRes [(''one'', Some ''1 item'')]
                   [(''one'', Some ''1 element''), (''few'', Some ''Q elements'')]))
          (TMX_default, [])
   of Done r s \<Rightarrow> False
    | Throw e (d, h) \<Rightarrow>
        e = TypeError \<and> tu d = [0]
        \<and> map tu_variants h =
            [[\<lparr>tv_locale = Some ''en'', tv_string = Some ''1 item''\<rparr>,
              \<lparr>tv_locale = Some ''fr'', tv_string = Some ''1 element''\<rparr>]]"
  by (simp add: addResource_def pluralRes_def TMX_default_def addTarget_def truthy_def Let_def
      segmentString_def get_prop_def objectMap_def pluralStep_def extraCategory_def extraStep_def
      alloc_def segmentUnit_def at_index_def addTranslationUnit_def TranslationUnit_new_def
      TranslationUnit_empty_def addVariant_def addProperties_def resProperties_def vhashKey_def
      hashKey_def enumerate_eq_zip upt_rec)

theorem addResource_extra_category_without_other_witness:
  "case addResource (\<lambda>s l. [s])
          (Some (pluralRes [(''one'', Some ''1 item'')]
                   [(''one'', Some ''1 element''), (''few'', Some ''Q elements'')]))
          (TMX_default, [])
   of Done r s \<Rightarrow> False
    | Throw e (d, h) \<Rightarrow>
        e = TypeError \<and> tu d = [0]
        \<and> map tu_variants h =
            [[\<lparr>tv_locale = Some ''en'', tv_string = Some ''1 item''\<rparr>,
              \<lparr>tv_locale = Some ''fr'', tv_string = Some ''1 element''\<rparr>]]"
  using addResource_extra_category_without_other [of "\<lambda>s l. [s]"]
  by simp

subsection \<open>Merging documents\<close>

lemma prefix_addVariant: "prefix (tu_variants u) (tu_variants (addVariant v u))"
  by (simp add: addVariant_def)

lemma prefix_addVariants: "prefix (tu_variants u) (tu_variants (addVariants vs u))"
  unfolding addVariants_def
proof (induction vs arbitrary: u)
  case Nil
  then show ?case by simp
next
  case (Cons v vs)
  show ?case
    using prefix_order.trans [OF prefix_addVariant [of u v] Cons.IH [of "addVariant v u"]]
    by simp
qed

lemma variantKeys_addVariants:
  "variantKeys (addVariants vs u) = variantKeys u \<union> vhashKey ` set vs"
  using vkeys_addVariants [of vs u] by (simp add: variantKeys_def)

lemma addVariants_filter:
  assumes "K \<subseteq> vhashKey ` set (tu_variants u)"
  shows "fold addVariant (filter (\<lambda>v. vhashKey v \<notin> K) vs) u = fold addVariant vs u"
  using assms
proof (induction vs arbitrary: u)
  case Nil
  then show ?case by simp
next
  case (Cons v vs)
  have K: "K \<subseteq> vhashKey ` set (tu_variants (addVariant v u))"
    using Cons.prems by (auto simp: vkeys_addVariant)
  show ?case
  proof (cases "vhashKey v \<in> K")
    case True
    then have "addVariant v u = u" using Cons.prems by (auto intro: addVariant_absorb)
    then show ?thesis using True Cons.IH [OF Cons.prems] by simp
  next
    case False
    then show ?thesis using Cons.IH [OF K] by simp
  qed
qed

lemma map_of_keyed_None:
  "map_of (map (\<lambda>variant. (vhashKey variant, variant)) vs) k = None \<longleftrightarrow> k \<notin> vhashKey ` set vs"
  by (simp add: map_of_eq_None_iff image_comp comp_def)

lemma mergeVariants_eq:
  "mergeVariants left right h = h[left := addVariants (tu_variants (h ! right)) (h ! left)]"
  using addVariants_filter [of "vhashKey ` set (tu_variants (h ! left))" "h ! left" "tu_variants (h ! right)"]
  by (simp add: mergeVariants_def map_of_keyed_None addVariants_def)

lemma mergeStep_eq: "mergeStep a s = addTranslationUnit a s"
  by (cases s) (simp add: mergeStep_def addTranslationUnit_def mergeVariants_eq split: option.splits)

lemma fold_fold_concat: "fold (\<lambda>x. fold f (g x)) xs s = fold f (concat (map g xs)) s"
  by (induction xs arbitrary: s) auto

lemma TMX_new_empty [simp]: "tu (TMX_new opts) = []" "tuhash (TMX_new opts) = []"
  by (auto simp: TMX_new_def TMX_default_def Let_def split: option.splits)

lemma merge_as_fold:
  "tmxs \<noteq> [] \<Longrightarrow>
   merge this tmxs h =
     (case fold addTranslationUnit (visited this tmxs) (TMX_new (Some (derivedOptions this)), h) of
        (m, h') \<Rightarrow> (NewTMX m, h'))"
proof -
  assume ne: "tmxs \<noteq> []"
  have "mergeStep = addTranslationUnit" by (intro ext) (rule mergeStep_eq)
  then show ?thesis
    using ne by (simp add: merge_def addTranslationUnits_def visited_def fold_fold_concat Let_def)
qed


lemma keyVariants_snoc:
  "keyVariants h (xs @ [a]) k =
     keyVariants h xs k \<union> (if hashKey (h ! a) = k then variantKeys (h ! a) else {})"
  by (auto simp: keyVariants_def variantKeys_def)

lemma keyVariants_Union:
  "keyVariants h xs k = (\<Union>b \<in> {b \<in> set xs. hashKey (h ! b) = k}. variantKeys (h ! b))"
  by (auto simp: keyVariants_def variantKeys_def)

lemma find_snoc:
  "find P (xs @ [a]) = (case find P xs of Some x \<Rightarrow> Some x | None \<Rightarrow> if P a then Some a else None)"
  by (induction xs) auto

lemma find_None_iff': "find P xs = None \<longleftrightarrow> (\<forall>x \<in> set xs. \<not> P x)"
  by (induction xs) auto

lemma absorbed_step:
  assumes inv: "absorbed h0 xs (m, h)" and a: "a < length h0"
  shows "absorbed h0 (xs @ [a]) (addTranslationUnit a (m, h))"
proof -
  from inv have len: "length h = length h0"
    and keys: "\<And>c. c < length h0 \<Longrightarrow> hashKey (h ! c) = hashKey (h0 ! c)"
    and pre: "\<And>c. c < length h0 \<Longrightarrow> prefix (tu_variants (h0 ! c)) (tu_variants (h ! c))"
    and cons: "consistent m h"
    and sub: "set (tu m) \<subseteq> set xs"
    and cov: "\<And>b. b \<in> set xs \<Longrightarrow> \<exists>e \<in> set (tu m). hashKey (h0 ! e) = hashKey (h0 ! b)"
    and frame: "\<And>c. c < length h0 \<Longrightarrow> c \<notin> set (tu m) \<Longrightarrow> h ! c = h0 ! c"
    and vk: "\<And>e. e \<in> set (tu m) \<Longrightarrow> variantKeys (h ! e) = keyVariants h0 xs (hashKey (h0 ! e))"
    and fst: "\<And>e. e \<in> set (tu m) \<Longrightarrow> find (\<lambda>b. hashKey (h0 ! b) = hashKey (h0 ! e)) xs = Some e"
    unfolding absorbed_def by auto
  note cD = consistentD [OF cons]
  have in_range: "e < length h0" if "e \<in> set (tu m)" for e
    using cD(3) [OF that] len by simp
  have key_m: "hashKey (h ! e) = hashKey (h0 ! e)" if "e \<in> set (tu m)" for e
    using keys in_range that by simp
  let ?k = "hashKey (h ! a)"
  have k0: "?k = hashKey (h0 ! a)" using keys a by simp
  show ?thesis
  proof (cases "map_of (tuhash m) ?k")
    case (Some e)
    have e: "e \<in> set (tu m)" and ke: "hashKey (h ! e) = ?k"
      using cD(5,6) [OF Some] by auto
    have e0: "hashKey (h0 ! e) = hashKey (h0 ! a)" using key_m [OF e] ke k0 by simp
    let ?U = "addVariants (tu_variants (h ! a)) (h ! e)"
    let ?h = "h[e := ?U]"
    have step: "addTranslationUnit a (m, h) = (m, ?h)"
      using Some by (simp add: addTranslationUnit_def)
    have only_e: "e' = e" if "e' \<in> set (tu m)" "hashKey (h0 ! e') = hashKey (h0 ! a)" for e'
      using cD(4) [OF that(1)] key_m [OF that(1)] that(2) k0 Some by simp
    have 1: "length ?h = length h0" using len by simp
    have 2: "hashKey (?h ! c) = hashKey (h0 ! c) \<and> prefix (tu_variants (h0 ! c)) (tu_variants (?h ! c))"
      if "c < length h0" for c
    proof (cases "c = e")
      case True
      have "prefix (tu_variants (h0 ! e)) (tu_variants ?U)"
        using prefix_order.trans [OF pre [OF in_range [OF e]] prefix_addVariants] .
      then show ?thesis using True keys [OF that] in_range [OF e] len by simp
    next
      case False
      then show ?thesis using keys [OF that] pre [OF that] by simp
    qed
    have 3: "consistent m ?h" using cons by (rule consistent_update) simp
    have 4: "set (tu m) \<subseteq> set (xs @ [a])" using sub by auto
    have 5: "\<exists>e' \<in> set (tu m). hashKey (h0 ! e') = hashKey (h0 ! b)" if "b \<in> set (xs @ [a])" for b
      using that cov e e0 by auto
    have 6: "?h ! c = h0 ! c" if "c < length h0" "c \<notin> set (tu m)" for c
      using frame [OF that] that(2) e by (auto simp: nth_update_eq)
    have va: "variantKeys (h ! a) \<union> keyVariants h0 xs (hashKey (h0 ! e))
                = keyVariants h0 xs (hashKey (h0 ! e)) \<union> variantKeys (h0 ! a)"
    proof (cases "a \<in> set (tu m)")
      case True
      then have "a = e" using only_e by simp
      moreover have "variantKeys (h0 ! a) \<subseteq> keyVariants h0 xs (hashKey (h0 ! a))"
        using True sub by (auto simp: keyVariants_Union)
      ultimately show ?thesis using vk [OF e] by auto
    next
      case False
      then show ?thesis using frame [OF a] by auto
    qed
    have 7: "variantKeys (?h ! e') = keyVariants h0 (xs @ [a]) (hashKey (h0 ! e'))
             \<and> find (\<lambda>b. hashKey (h0 ! b) = hashKey (h0 ! e')) (xs @ [a]) = Some e'"
      if "e' \<in> set (tu m)" for e'
    proof (cases "e' = e")
      case True
      have "variantKeys ?U = variantKeys (h ! e) \<union> variantKeys (h ! a)"
        by (simp add: variantKeys_addVariants) (simp add: variantKeys_def)
      then show ?thesis
        using True va vk [OF e] fst [OF e] e0 in_range [OF e] len
        by (auto simp: keyVariants_snoc find_snoc)
    next
      case False
      then have "hashKey (h0 ! a) \<noteq> hashKey (h0 ! e')" using only_e [OF that] by auto
      then show ?thesis
        using False vk [OF that] fst [OF that]
        by (auto simp: keyVariants_snoc find_snoc)
    qed
    show ?thesis
      unfolding step absorbed_def using 1 2 3 4 5 6 7 by simp
  next
    case None
    have notin: "a \<notin> set (tu m)" using cD(4) [of a] None by auto
    let ?m = "m\<lparr>tu := tu m @ [a], tuhash := AList.update ?k a (tuhash m)\<rparr>"
    have step: "addTranslationUnit a (m, h) = (?m, h)"
      using None by (simp add: addTranslationUnit_def)
    have other_key: "hashKey (h0 ! e) \<noteq> hashKey (h0 ! a)" if "e \<in> set (tu m)" for e
      using cD(4) [OF that] key_m [OF that] None k0 by auto
    have no_b: "hashKey (h0 ! b) \<noteq> hashKey (h0 ! a)" if "b \<in> set xs" for b
      using cov [OF that] other_key by auto
    have 3: "consistent ?m h"
      using consistent_addTranslationUnit [OF cons, of a] a len step by simp
    have 5: "\<exists>e' \<in> set (tu ?m). hashKey (h0 ! e') = hashKey (h0 ! b)" if "b \<in> set (xs @ [a])" for b
      using that cov by auto
    have empty: "keyVariants h0 xs (hashKey (h0 ! a)) = {}"
      using no_b by (auto simp: keyVariants_Union)
    have none: "find (\<lambda>b. hashKey (h0 ! b) = hashKey (h0 ! a)) xs = None"
      using no_b by (simp add: find_None_iff')
    have 7: "variantKeys (h ! e') = keyVariants h0 (xs @ [a]) (hashKey (h0 ! e'))
             \<and> find (\<lambda>b. hashKey (h0 ! b) = hashKey (h0 ! e')) (xs @ [a]) = Some e'"
      if "e' \<in> set (tu ?m)" for e'
    proof (cases "e' = a")
      case True
      then show ?thesis
        using frame [OF a notin] empty none by (simp add: keyVariants_snoc find_snoc)
    next
      case False
      then have e': "e' \<in> set (tu m)" using that by simp
      show ?thesis
        using other_key [OF e'] vk [OF e'] fst [OF e']
        by (auto simp: keyVariants_snoc find_snoc)
    qed
    show ?thesis
      unfolding step absorbed_def using len keys pre 3 sub 5 frame 7 by auto
  qed
qed

lemma absorbed_fold:
  assumes "absorbed h0 xs s" "\<forall>a \<in> set ys. a < length h0"
  shows "absorbed h0 (xs @ ys) (fold addTranslationUnit ys s)"
  using assms
proof (induction ys arbitrary: xs s)
  case Nil
  then show ?case by simp
next
  case (Cons a ys)
  obtain m h where s: "s = (m, h)" by (cases s) auto
  have "absorbed h0 (xs @ [a]) (addTranslationUnit a s)"
    using absorbed_step [of h0 xs m h a] Cons.prems by (simp add: s)
  from Cons.IH [OF this] Cons.prems(2) show ?case by simp
qed

lemma absorbed_start:
  "tu m = [] \<Longrightarrow> tuhash m = [] \<Longrightarrow> absorbed h [] (m, h)"
  by (simp add: absorbed_def consistent_def)

subsection \<open>The difference of two documents\<close>

lemma variantDiff_filter:
  "variantDiff t u = filter (\<lambda>v. vhashKey v \<notin> variantKeys t) (tu_variants u)"
  by (simp add: variantDiff_def map_of_keyed_None variantKeys_def)

lemma variantDiff_keys: "vhashKey ` set (variantDiff t u) = variantKeys u - variantKeys t"
  by (auto simp: variantDiff_filter variantKeys_def image_iff)

lemma changedUnit_fields [simp]:
  "hashKey (changedUnit t u) = hashKey u"
  "tu_source (changedUnit t u) = tu_source u"
  "tu_sourceLocale (changedUnit t u) = tu_sourceLocale u"
  "tu_target (changedUnit t u) = tu_target u"
  "tu_targetLocale (changedUnit t u) = tu_targetLocale u"
  "tu_datatype (changedUnit t u) = tu_datatype u"
proof -
  have f: "tu_source (addVariant v w) = tu_source w" "tu_sourceLocale (addVariant v w) = tu_sourceLocale w"
    "tu_target (addVariant v w) = tu_target w" "tu_targetLocale (addVariant v w) = tu_targetLocale w"
    "tu_datatype (addVariant v w) = tu_datatype w" for v w
    by (simp_all add: addVariant_def)
  have g: "tu_source (addVariants vs w) = tu_source w \<and> tu_sourceLocale (addVariants vs w) = tu_sourceLocale w
    \<and> tu_target (addVariants vs w) = tu_target w \<and> tu_targetLocale (addVariants vs w) = tu_targetLocale w
    \<and> tu_datatype (addVariants vs w) = tu_datatype w" for vs w
    unfolding addVariants_def by (induction vs arbitrary: w) (simp_all add: f)
  show "hashKey (changedUnit t u) = hashKey u"
    "tu_source (changedUnit t u) = tu_source u"
    "tu_sourceLocale (changedUnit t u) = tu_sourceLocale u"
    "tu_target (changedUnit t u) = tu_target u"
    "tu_targetLocale (changedUnit t u) = tu_targetLocale u"
    "tu_datatype (changedUnit t u) = tu_datatype u"
    by (simp_all add: changedUnit_def g f hashKey_def TranslationUnit_new_def)
qed

lemma variantKeys_changedUnit:
  "variantKeys (changedUnit t u) =
     insert (tu_sourceLocale u, tu_source u) (variantKeys u - variantKeys t)"
proof -
  have "variantKeys (addVariant \<lparr>tv_locale = tu_sourceLocale u, tv_string = tu_source u\<rparr>
          (TranslationUnit_new (tu_source u) (tu_sourceLocale u) (tu_target u)
             (tu_targetLocale u) (tu_datatype u))) = {(tu_sourceLocale u, tu_source u)}"
    by (simp add: variantKeys_def addVariant_def TranslationUnit_new_def TranslationUnit_empty_def vhashKey_def)
  then show ?thesis
    by (simp add: changedUnit_def variantKeys_addVariants variantDiff_keys)
qed

lemma diffStep_eq:
  "diffStep this a (dm, h) =
     (case map_of (tuhash this) (hashKey (h ! a)) of
        Some t \<Rightarrow>
          if variantDiff (h ! t) (h ! a) \<noteq> []
          then addTranslationUnit (length h) (dm, h @ [changedUnit (h ! t) (h ! a)])
          else (dm, h)
      | None \<Rightarrow> addTranslationUnit a (dm, h))"
  by (simp add: diffStep_def changedUnit_def alloc_def Let_def split: option.splits)

lemma addTranslationUnit_new_key:
  assumes "map_of (tuhash dm) (hashKey (h ! a)) = None"
  shows "addTranslationUnit a (dm, h) =
           (dm\<lparr>tu := tu dm @ [a], tuhash := AList.update (hashKey (h ! a)) a (tuhash dm)\<rparr>, h)"
  using assms by (simp add: addTranslationUnit_def)

lemma diffedI:
  assumes "length h0 \<le> length h"
    "\<And>c. c < length h0 \<Longrightarrow> h ! c = h0 ! c"
    "consistent dm h"
    "\<And>e. e \<in> set (tu dm) \<Longrightarrow> hashKey (h ! e) \<in> (\<lambda>a. hashKey (h0 ! a)) ` set xs"
    "\<And>e. e \<in> set (tu dm) \<Longrightarrow>
              (e \<in> set xs \<and> map_of (tuhash this) (hashKey (h0 ! e)) = None)
              \<or> (length h0 \<le> e
                  \<and> (\<exists>a \<in> set xs. \<exists>t. map_of (tuhash this) (hashKey (h0 ! a)) = Some t
                         \<and> variantDiff (h0 ! t) (h0 ! a) \<noteq> []
                         \<and> h ! e = changedUnit (h0 ! t) (h0 ! a)))"
    "\<And>b. b \<in> set xs \<Longrightarrow>
              (case map_of (tuhash this) (hashKey (h0 ! b)) of
                None \<Rightarrow> b \<in> set (tu dm)
              | Some t \<Rightarrow>
                  variantDiff (h0 ! t) (h0 ! b) \<noteq> []
                  \<longrightarrow> (\<exists>e \<in> set (tu dm). length h0 \<le> e
                          \<and> h ! e = changedUnit (h0 ! t) (h0 ! b)))"
  shows "diffed this h0 xs (dm, h)"
  unfolding diffed_def using assms by blast

lemma diffed_step:
  assumes inv: "diffed this h0 xs (dm, h)" and a: "a < length h0"
    and fresh: "hashKey (h0 ! a) \<notin> (\<lambda>b. hashKey (h0 ! b)) ` set xs"
    and cthis: "consistent this h0"
  shows "diffed this h0 (xs @ [a]) (diffStep this a (dm, h))"
proof -
  from inv have len: "length h0 \<le> length h"
    and frame: "\<And>c. c < length h0 \<Longrightarrow> h ! c = h0 ! c"
    and cons: "consistent dm h"
    and keys: "\<And>e. e \<in> set (tu dm) \<Longrightarrow> hashKey (h ! e) \<in> (\<lambda>a. hashKey (h0 ! a)) ` set xs"
    and kind: "\<And>e. e \<in> set (tu dm) \<Longrightarrow>
              (e \<in> set xs \<and> map_of (tuhash this) (hashKey (h0 ! e)) = None)
              \<or> (length h0 \<le> e
                  \<and> (\<exists>a \<in> set xs. \<exists>t. map_of (tuhash this) (hashKey (h0 ! a)) = Some t
                         \<and> variantDiff (h0 ! t) (h0 ! a) \<noteq> []
                         \<and> h ! e = changedUnit (h0 ! t) (h0 ! a)))"
    and all: "\<And>b. b \<in> set xs \<Longrightarrow>
              (case map_of (tuhash this) (hashKey (h0 ! b)) of
                None \<Rightarrow> b \<in> set (tu dm)
              | Some t \<Rightarrow>
                  variantDiff (h0 ! t) (h0 ! b) \<noteq> []
                  \<longrightarrow> (\<exists>e \<in> set (tu dm). length h0 \<le> e
                          \<and> h ! e = changedUnit (h0 ! t) (h0 ! b)))"
    unfolding diffed_def by auto
  note cD = consistentD [OF cons]
  have ha: "h ! a = h0 ! a" using frame a by simp
  have no_entry: "map_of (tuhash dm) (hashKey (h0 ! a)) = None"
  proof (cases "map_of (tuhash dm) (hashKey (h0 ! a))")
    case (Some e)
    then show ?thesis using cD(5,6) [OF Some] keys [of e] fresh by auto
  qed simp
  have a_notin: "a \<notin> set (tu dm)" using cD(4) [of a] no_entry ha by auto
  show ?thesis
  proof (cases "map_of (tuhash this) (hashKey (h0 ! a))")
    case None
    let ?dm = "dm\<lparr>tu := tu dm @ [a], tuhash := AList.update (hashKey (h0 ! a)) a (tuhash dm)\<rparr>"
    have step: "diffStep this a (dm, h) = (?dm, h)"
      using None no_entry ha by (simp add: diffStep_eq addTranslationUnit_def)
    have 3: "consistent ?dm h"
      using consistent_addTranslationUnit [OF cons, of a] a len no_entry ha
      by (simp add: addTranslationUnit_def)
    have 4: "hashKey (h ! e) \<in> (\<lambda>a. hashKey (h0 ! a)) ` set (xs @ [a])" if "e \<in> set (tu ?dm)" for e
      using that keys [of e] ha by auto
    have 5: "(e \<in> set (xs @ [a]) \<and> map_of (tuhash this) (hashKey (h0 ! e)) = None)
              \<or> (length h0 \<le> e
                  \<and> (\<exists>a \<in> set (xs @ [a]). \<exists>t. map_of (tuhash this) (hashKey (h0 ! a)) = Some t
                         \<and> variantDiff (h0 ! t) (h0 ! a) \<noteq> []
                         \<and> h ! e = changedUnit (h0 ! t) (h0 ! a)))"
      if "e \<in> set (tu ?dm)" for e
    proof (cases "e = a")
      case True
      then show ?thesis using None by simp
    next
      case False
      then have "e \<in> set (tu dm)" using that by simp
      from kind [OF this] show ?thesis by auto
    qed
    have 6: "(case map_of (tuhash this) (hashKey (h0 ! b)) of
                None \<Rightarrow> b \<in> set (tu ?dm)
              | Some t \<Rightarrow>
                  variantDiff (h0 ! t) (h0 ! b) \<noteq> []
                  \<longrightarrow> (\<exists>e \<in> set (tu ?dm). length h0 \<le> e
                          \<and> h ! e = changedUnit (h0 ! t) (h0 ! b)))"
      if "b \<in> set (xs @ [a])" for b
    proof (cases "b = a")
      case True
      then show ?thesis using None by simp
    next
      case False
      then have "b \<in> set xs" using that by simp
      from all [OF this] show ?thesis by (auto split: option.splits)
    qed
    show ?thesis
      unfolding step by (rule diffedI) (use len frame 3 4 5 6 in blast)+
  next
    case (Some t)
    have "t < length h0" using consistentD(3) [OF cthis consistentD(5) [OF cthis Some]] .
    then have ht: "h ! t = h0 ! t" using frame by simp
    show ?thesis
    proof (cases "variantDiff (h0 ! t) (h0 ! a) = []")
      case True
      have step: "diffStep this a (dm, h) = (dm, h)"
        using Some True ha ht by (simp add: diffStep_eq)
      have 4: "hashKey (h ! e) \<in> (\<lambda>a. hashKey (h0 ! a)) ` set (xs @ [a])" if "e \<in> set (tu dm)" for e
        using keys [OF that] by auto
      have 5: "(e \<in> set (xs @ [a]) \<and> map_of (tuhash this) (hashKey (h0 ! e)) = None)
              \<or> (length h0 \<le> e
                  \<and> (\<exists>a \<in> set (xs @ [a]). \<exists>t. map_of (tuhash this) (hashKey (h0 ! a)) = Some t
                         \<and> variantDiff (h0 ! t) (h0 ! a) \<noteq> []
                         \<and> h ! e = changedUnit (h0 ! t) (h0 ! a)))"
        if "e \<in> set (tu dm)" for e
        using kind [OF that] by auto
      have 6: "(case map_of (tuhash this) (hashKey (h0 ! b)) of
                None \<Rightarrow> b \<in> set (tu dm)
              | Some t \<Rightarrow>
                  variantDiff (h0 ! t) (h0 ! b) \<noteq> []
                  \<longrightarrow> (\<exists>e \<in> set (tu dm). length h0 \<le> e
                          \<and> h ! e = changedUnit (h0 ! t) (h0 ! b)))"
        if "b \<in> set (xs @ [a])" for b
      proof (cases "b = a")
        case True
        then show ?thesis using Some \<open>variantDiff (h0 ! t) (h0 ! a) = []\<close> by simp
      next
        case False
        then have "b \<in> set xs" using that by simp
        from all [OF this] show ?thesis by (auto split: option.splits)
      qed
      show ?thesis
        unfolding step by (rule diffedI) (use len frame cons 4 5 6 in blast)+
    next
      case False
      let ?u = "changedUnit (h0 ! t) (h0 ! a)"
      let ?n = "length h"
      let ?h = "h @ [?u]"
      let ?dm = "dm\<lparr>tu := tu dm @ [?n], tuhash := AList.update (hashKey (h0 ! a)) ?n (tuhash dm)\<rparr>"
      have step: "diffStep this a (dm, h) = (?dm, ?h)"
        using Some False ha ht no_entry by (simp add: diffStep_eq addTranslationUnit_def)
      have old: "?h ! e = h ! e" if "e \<in> set (tu dm)" for e
        using cD(3) [OF that] by (simp add: nth_append)
      have 1: "length h0 \<le> length ?h" using len by simp
      have 2: "?h ! c = h0 ! c" if "c < length h0" for c
        using frame [OF that] that len by (simp add: nth_append)
      have 3: "consistent ?dm ?h"
        using consistent_add_new [OF cons, of ?u] no_entry
        by (simp add: addTranslationUnit_def)
      have 4: "hashKey (?h ! e) \<in> (\<lambda>a. hashKey (h0 ! a)) ` set (xs @ [a])" if "e \<in> set (tu ?dm)" for e
      proof (cases "e = ?n")
        case True
        then show ?thesis by simp
      next
        case False
        then have "e \<in> set (tu dm)" using that by simp
        then show ?thesis using keys [of e] old [of e] by auto
      qed
      have 5: "(e \<in> set (xs @ [a]) \<and> map_of (tuhash this) (hashKey (h0 ! e)) = None)
              \<or> (length h0 \<le> e
                  \<and> (\<exists>a \<in> set (xs @ [a]). \<exists>t. map_of (tuhash this) (hashKey (h0 ! a)) = Some t
                         \<and> variantDiff (h0 ! t) (h0 ! a) \<noteq> []
                         \<and> ?h ! e = changedUnit (h0 ! t) (h0 ! a)))"
        if "e \<in> set (tu ?dm)" for e
      proof (cases "e = ?n")
        case True
        then show ?thesis using Some False len by auto
      next
        case False
        then have e: "e \<in> set (tu dm)" using that by simp
        from kind [OF e] old [OF e] show ?thesis by auto
      qed
      have 6: "(case map_of (tuhash this) (hashKey (h0 ! b)) of
                None \<Rightarrow> b \<in> set (tu ?dm)
              | Some t \<Rightarrow>
                  variantDiff (h0 ! t) (h0 ! b) \<noteq> []
                  \<longrightarrow> (\<exists>e \<in> set (tu ?dm). length h0 \<le> e
                          \<and> ?h ! e = changedUnit (h0 ! t) (h0 ! b)))"
        if "b \<in> set (xs @ [a])" for b
      proof (cases "b = a")
        case True
        then show ?thesis using Some len by auto
      next
        case False
        then have "b \<in> set xs" using that by simp
        from all [OF this] old show ?thesis
          by (auto split: option.splits)
      qed
      show ?thesis
        unfolding step by (rule diffedI) (use 1 2 3 4 5 6 in blast)+
    qed
  qed
qed

lemma consistent_distinct_keys:
  assumes "consistent d h"
  shows "distinct (map (\<lambda>a. hashKey (h ! a)) (tu d))"
proof -
  have "inj_on (\<lambda>a. hashKey (h ! a)) (set (tu d))"
  proof (rule inj_onI)
    fix a b assume ab: "a \<in> set (tu d)" "b \<in> set (tu d)" and eq: "hashKey (h ! a) = hashKey (h ! b)"
    have "map_of (tuhash d) (hashKey (h ! a)) = Some a" by (rule consistentD(4) [OF assms ab(1)])
    moreover have "map_of (tuhash d) (hashKey (h ! b)) = Some b" by (rule consistentD(4) [OF assms ab(2)])
    ultimately have "Some a = Some b" unfolding eq by (rule trans [OF sym])
    then show "a = b" by (rule option.inject [THEN iffD1])
  qed
  then show ?thesis using consistentD(1) [OF assms] by (simp add: distinct_map)
qed

lemma consistent_lookup_Some:
  assumes "consistent d h"
  shows "map_of (tuhash d) k = Some t \<longleftrightarrow> t \<in> set (tu d) \<and> hashKey (h ! t) = k"
  using consistentD(4,5,6) [OF assms] by blast

lemma consistent_lookup_None:
  assumes "consistent d h"
  shows "map_of (tuhash d) k = None \<longleftrightarrow> k \<notin> unitKeys d h"
proof
  assume "map_of (tuhash d) k = None"
  then show "k \<notin> unitKeys d h"
    using consistentD(4) [OF assms] by (auto simp: unitKeys_def)
next
  assume "k \<notin> unitKeys d h"
  then show "map_of (tuhash d) k = None"
    using consistentD(5,6) [OF assms, of k]
    by (cases "map_of (tuhash d) k") (auto simp: unitKeys_def)
qed

lemma diffed_fold:
  assumes "diffed this h0 xs s" "\<forall>a \<in> set ys. a < length h0"
    "distinct (map (\<lambda>a. hashKey (h0 ! a)) (xs @ ys))" "consistent this h0"
  shows "diffed this h0 (xs @ ys) (fold (diffStep this) ys s)"
  using assms(1-3)
proof (induction ys arbitrary: xs s)
  case Nil
  then show ?case by simp
next
  case (Cons a ys)
  obtain dm h where s: "s = (dm, h)" by (cases s) auto
  have a: "a < length h0" using Cons.prems(2) by simp
  have fresh: "hashKey (h0 ! a) \<notin> (\<lambda>b. hashKey (h0 ! b)) ` set xs"
    using Cons.prems(3) by auto
  have "diffed this h0 (xs @ [a]) (diffStep this a s)"
    using diffed_step [OF _ a fresh assms(4), of dm h] Cons.prems(1) by (simp add: s)
  from Cons.IH [OF this] Cons.prems(2,3) show ?case by simp
qed

lemma diffed_start: "diffed this h [] (TMX_new opts, h)"
  by (simp add: diffed_def consistent_def)

lemma diffed_diff:
  assumes "consistent this h" "consistent other h"
  shows "diffed this h (tu other) (diff this other h)"
proof -
  have "\<forall>a \<in> set (tu other). a < length h"
    using consistentD(3) [OF assms(2)] by simp
  moreover have "distinct (map (\<lambda>a. hashKey (h ! a)) ([] @ tu other))"
    using consistent_distinct_keys [OF assms(2)] by simp
  ultimately have "diffed this h ([] @ tu other)
      (fold (diffStep this) (tu other) (TMX_new (Some (derivedOptions this)), h))"
    using assms(1) by (intro diffed_fold diffed_start)
  then show ?thesis by (simp add: diff_def)
qed

subsection \<open>The result of a merge\<close>

lemma merge_absorbed:
  assumes "\<forall>a \<in> set (visited this tmxs). a < length h"
  shows "absorbed h (visited this tmxs)
           (fold addTranslationUnit (visited this tmxs) (TMX_new (Some (derivedOptions this)), h))"
  using absorbed_fold [OF absorbed_start, of "TMX_new (Some (derivedOptions this))" "visited this tmxs" h] assms
  by simp

lemma unitKeys_visited:
  "(\<lambda>a. hashKey (h ! a)) ` set (visited this tmxs)
     = unitKeys this h \<union> (\<Union>other \<in> set tmxs. unitKeys other h)"
  by (auto simp: visited_def unitKeys_def)

text \<open>
  C5. \<open>merge\<close> of no document returns the receiver and changes nothing. Otherwise it
  returns a new document \<open>m\<close> such that, all units visited being cells of the store:
  the unit keys of \<open>m\<close> are those of the receiver and of the documents merged; a unit of
  \<open>m\<close> carries exactly the variant keys that the visited units of its key carried before
  the call; it is the first visited unit of its key; and the variants it had before the
  call are still there, unchanged and in place, at the front of its list, so a later
  variant of the same key has replaced none of them.
\<close>

theorem merge_union_first_wins:
  assumes "\<forall>a \<in> set (visited this tmxs). a < length h"
  shows "merge this [] h = (Receiver, h)
         \<and> (tmxs \<noteq> [] \<longrightarrow>
              (\<exists>m h'. merge this tmxs h = (NewTMX m, h')
                 \<and> unitKeys m h' = unitKeys this h \<union> (\<Union>other \<in> set tmxs. unitKeys other h)
                 \<and> (\<forall>e \<in> set (tu m).
                       variantKeys (h' ! e)
                         = (\<Union>b \<in> {b \<in> set (visited this tmxs). hashKey (h ! b) = hashKey (h' ! e)}.
                              variantKeys (h ! b))
                       \<and> find (\<lambda>b. hashKey (h ! b) = hashKey (h' ! e)) (visited this tmxs) = Some e
                       \<and> prefix (tu_variants (h ! e)) (tu_variants (h' ! e)))))"
proof (intro conjI impI)
  show "merge this [] h = (Receiver, h)" by (simp add: merge_def)
next
  assume ne: "tmxs \<noteq> []"
  obtain m h' where f: "fold addTranslationUnit (visited this tmxs)
                          (TMX_new (Some (derivedOptions this)), h) = (m, h')"
    by (cases "fold addTranslationUnit (visited this tmxs) (TMX_new (Some (derivedOptions this)), h)") auto
  have m: "merge this tmxs h = (NewTMX m, h')"
    using merge_as_fold [OF ne, of this h] f by simp
  from merge_absorbed [OF assms] f have inv: "absorbed h (visited this tmxs) (m, h')" by simp
  then have keys: "\<And>c. c < length h \<Longrightarrow> hashKey (h' ! c) = hashKey (h ! c)"
    and pre: "\<And>c. c < length h \<Longrightarrow> prefix (tu_variants (h ! c)) (tu_variants (h' ! c))"
    and sub: "set (tu m) \<subseteq> set (visited this tmxs)"
    and cov: "\<And>b. b \<in> set (visited this tmxs) \<Longrightarrow> \<exists>e \<in> set (tu m). hashKey (h ! e) = hashKey (h ! b)"
    and vk: "\<And>e. e \<in> set (tu m) \<Longrightarrow> variantKeys (h' ! e) = keyVariants h (visited this tmxs) (hashKey (h ! e))"
    and fst: "\<And>e. e \<in> set (tu m) \<Longrightarrow> find (\<lambda>b. hashKey (h ! b) = hashKey (h ! e)) (visited this tmxs) = Some e"
    unfolding absorbed_def by auto
  have valid: "e < length h" if "e \<in> set (tu m)" for e
    using that sub assms by auto
  have same: "hashKey (h' ! e) = hashKey (h ! e)" if "e \<in> set (tu m)" for e
    using keys valid that by simp
  have "unitKeys m h' = (\<lambda>a. hashKey (h ! a)) ` set (visited this tmxs)"
  proof
    show "unitKeys m h' \<subseteq> (\<lambda>a. hashKey (h ! a)) ` set (visited this tmxs)"
      using same sub by (auto simp: unitKeys_def)
    show "(\<lambda>a. hashKey (h ! a)) ` set (visited this tmxs) \<subseteq> unitKeys m h'"
    proof
      fix k assume "k \<in> (\<lambda>a. hashKey (h ! a)) ` set (visited this tmxs)"
      then obtain b where b: "b \<in> set (visited this tmxs)" "k = hashKey (h ! b)" by auto
      from cov [OF b(1)] obtain e where "e \<in> set (tu m)" "hashKey (h ! e) = hashKey (h ! b)" by auto
      then have "e \<in> set (tu m)" "hashKey (h' ! e) = k" using same [of e] b(2) by auto
      then show "k \<in> unitKeys m h'" unfolding unitKeys_def by force
    qed
  qed
  then have 1: "unitKeys m h' = unitKeys this h \<union> (\<Union>other \<in> set tmxs. unitKeys other h)"
    by (simp add: unitKeys_visited)
  have 2: "variantKeys (h' ! e)
             = (\<Union>b \<in> {b \<in> set (visited this tmxs). hashKey (h ! b) = hashKey (h' ! e)}. variantKeys (h ! b))
           \<and> find (\<lambda>b. hashKey (h ! b) = hashKey (h' ! e)) (visited this tmxs) = Some e
           \<and> prefix (tu_variants (h ! e)) (tu_variants (h' ! e))"
    if "e \<in> set (tu m)" for e
    using vk [OF that] fst [OF that] pre [OF valid [OF that]] same [OF that]
    by (simp add: keyVariants_Union)
  show "\<exists>m h'. merge this tmxs h = (NewTMX m, h')
                 \<and> unitKeys m h' = unitKeys this h \<union> (\<Union>other \<in> set tmxs. unitKeys other h)
                 \<and> (\<forall>e \<in> set (tu m).
                       variantKeys (h' ! e)
                         = (\<Union>b \<in> {b \<in> set (visited this tmxs). hashKey (h ! b) = hashKey (h' ! e)}.
                              variantKeys (h ! b))
                       \<and> find (\<lambda>b. hashKey (h ! b) = hashKey (h' ! e)) (visited this tmxs) = Some e
                       \<and> prefix (tu_variants (h ! e)) (tu_variants (h' ! e)))"
    using m 1 2 by blast
qed

text \<open>
  The documents X and Y: the key of a variant is (locale, string), so fr:Salut does not
  collide with fr:Bonjour and the merged unit has the three variants. The unit is the
  unit of X itself, which \<open>merge\<close> has extended in the store.
\<close>

lemma merge_XY:
  "merge docX [docY] storeXY =
     (NewTMX docX,
      [unitX\<lparr>tu_variants := [\<lparr>tv_locale = Some ''fr'', tv_string = Some ''Bonjour''\<rparr>,
                              \<lparr>tv_locale = Some ''fr'', tv_string = Some ''Salut''\<rparr>,
                              \<lparr>tv_locale = Some ''de'', tv_string = Some ''Hallo''\<rparr>]\<rparr>,
       unitY])"
  by (simp add: merge_def addTranslationUnits_def addTranslationUnit_def mergeStep_def
      mergeVariants_def docX_def docY_def storeXY_def unitX_def unitY_def keyHello_def
      TMX_new_def derivedOptions_def TMX_default_def get_prop_def js_or_def truthy_def
      headerAttrs_def hashKey_def vhashKey_def addVariants_def addVariant_def
      TranslationUnit_new_def TranslationUnit_empty_def Let_def)


theorem merge_union_first_wins_witness:
  "list_all (\<lambda>a. a < length storeXY) (visited docX [docY])
   \<and> merge docX [] storeXY = (Receiver, storeXY)
   \<and> (\<exists>m h'. merge docX [docY] storeXY = (NewTMX m, h')
          \<and> unitKeys m h' = unitKeys docX storeXY \<union> unitKeys docY storeXY
          \<and> map vhashKey (tu_variants (h' ! 0)) =
               [(Some ''fr'', Some ''Bonjour''), (Some ''fr'', Some ''Salut''), (Some ''de'', Some ''Hallo'')])"
proof -
  have v: "\<forall>a \<in> set (visited docX [docY]). a < length storeXY"
    by (simp add: visited_def docX_def docY_def storeXY_def)
  have "map vhashKey (tu_variants (snd (merge docX [docY] storeXY) ! 0)) =
               [(Some ''fr'', Some ''Bonjour''), (Some ''fr'', Some ''Salut''), (Some ''de'', Some ''Hallo'')]"
    by (simp add: merge_XY vhashKey_def)
  then show ?thesis
    using v merge_union_first_wins [OF v]
    by (auto simp: list_all_iff)
qed

subsection \<open>The result of a diff\<close>

lemma variantDiff_empty: "variantDiff t u = [] \<longleftrightarrow> variantKeys u \<subseteq> variantKeys t"
  by (auto simp: variantDiff_filter filter_empty_conv variantKeys_def)

text \<open>
  C6. For documents whose units and index agree, \<open>this.diff(other)\<close> returns a new
  document \<open>dm\<close> such that, for every unit \<open>a\<close> of \<open>other\<close>: if the receiver lacks its
  key, \<open>a\<close> itself is a unit of \<open>dm\<close>, unchanged; if the receiver has its key on the unit
  \<open>t\<close> and every variant key of \<open>a\<close> is a variant key of \<open>t\<close>, \<open>dm\<close> has no unit of that
  key; if \<open>a\<close> has a variant key that \<open>t\<close> lacks, \<open>dm\<close> has a new unit with the key,
  source and target fields of \<open>a\<close>, whose variant keys are the key of the source variant
  and exactly the keys of \<open>a\<close> that \<open>t\<close> lacks. Every unit of \<open>dm\<close> is of one of these
  two kinds, no key occurs twice in \<open>dm\<close>, every key of \<open>dm\<close> is a key of \<open>other\<close> (what
  only the receiver has does not appear), and the units that existed before the call
  are left as they were.
\<close>

theorem diff_content:
  assumes "consistent this h" "consistent other h"
  shows "case diff this other h of (dm, h') \<Rightarrow>
           (\<forall>a \<in> set (tu other).
              (hashKey (h ! a) \<notin> unitKeys this h \<longrightarrow> a \<in> set (tu dm) \<and> h' ! a = h ! a)
              \<and> (\<forall>t \<in> set (tu this). hashKey (h ! t) = hashKey (h ! a) \<longrightarrow>
                    (if variantKeys (h ! a) \<subseteq> variantKeys (h ! t)
                     then hashKey (h ! a) \<notin> unitKeys dm h'
                     else \<exists>e \<in> set (tu dm). length h \<le> e
                            \<and> hashKey (h' ! e) = hashKey (h ! a)
                            \<and> tu_source (h' ! e) = tu_source (h ! a)
                            \<and> tu_sourceLocale (h' ! e) = tu_sourceLocale (h ! a)
                            \<and> tu_target (h' ! e) = tu_target (h ! a)
                            \<and> tu_targetLocale (h' ! e) = tu_targetLocale (h ! a)
                            \<and> tu_datatype (h' ! e) = tu_datatype (h ! a)
                            \<and> variantKeys (h' ! e)
                                = insert (tu_sourceLocale (h ! a), tu_source (h ! a))
                                    (variantKeys (h ! a) - variantKeys (h ! t)))))
           \<and> (\<forall>e \<in> set (tu dm).
                 (e \<in> set (tu other) \<and> hashKey (h ! e) \<notin> unitKeys this h)
                 \<or> (length h \<le> e
                     \<and> (\<exists>a \<in> set (tu other). \<exists>t \<in> set (tu this).
                            hashKey (h ! t) = hashKey (h ! a)
                            \<and> \<not> variantKeys (h ! a) \<subseteq> variantKeys (h ! t)
                            \<and> hashKey (h' ! e) = hashKey (h ! a)
                            \<and> variantKeys (h' ! e)
                                = insert (tu_sourceLocale (h ! a), tu_source (h ! a))
                                    (variantKeys (h ! a) - variantKeys (h ! t)))))
           \<and> distinct (map (\<lambda>e. hashKey (h' ! e)) (tu dm))
           \<and> unitKeys dm h' \<subseteq> unitKeys other h
           \<and> (\<forall>c < length h. h' ! c = h ! c)"
proof -
  obtain dm h' where d: "diff this other h = (dm, h')" by (cases "diff this other h") auto
  from diffed_diff [OF assms] d have inv: "diffed this h (tu other) (dm, h')" by simp
  then have frame: "\<And>c. c < length h \<Longrightarrow> h' ! c = h ! c"
    and cons: "consistent dm h'"
    and keys: "\<And>e. e \<in> set (tu dm) \<Longrightarrow> hashKey (h' ! e) \<in> (\<lambda>a. hashKey (h ! a)) ` set (tu other)"
    and kind: "\<And>e. e \<in> set (tu dm) \<Longrightarrow>
              (e \<in> set (tu other) \<and> map_of (tuhash this) (hashKey (h ! e)) = None)
              \<or> (length h \<le> e
                  \<and> (\<exists>a \<in> set (tu other). \<exists>t. map_of (tuhash this) (hashKey (h ! a)) = Some t
                         \<and> variantDiff (h ! t) (h ! a) \<noteq> []
                         \<and> h' ! e = changedUnit (h ! t) (h ! a)))"
    and all: "\<And>b. b \<in> set (tu other) \<Longrightarrow>
              (case map_of (tuhash this) (hashKey (h ! b)) of
                None \<Rightarrow> b \<in> set (tu dm)
              | Some t \<Rightarrow>
                  variantDiff (h ! t) (h ! b) \<noteq> []
                  \<longrightarrow> (\<exists>e \<in> set (tu dm). length h \<le> e
                          \<and> h' ! e = changedUnit (h ! t) (h ! b)))"
    unfolding diffed_def by auto
  note lN = consistent_lookup_None [OF assms(1)] and lS = consistent_lookup_Some [OF assms(1)]
  have valid: "a < length h" if "a \<in> set (tu other)" for a
    using consistentD(3) [OF assms(2) that] .
  have inj: "a = b" if "a \<in> set (tu other)" "b \<in> set (tu other)" "hashKey (h ! a) = hashKey (h ! b)" for a b
    using consistent_lookup_Some [OF assms(2), of "hashKey (h ! a)" a]
      consistent_lookup_Some [OF assms(2), of "hashKey (h ! a)" b] that by simp
  have A: "hashKey (h ! a) \<notin> unitKeys this h \<longrightarrow> a \<in> set (tu dm) \<and> h' ! a = h ! a"
    if "a \<in> set (tu other)" for a
    using all [OF that] frame [OF valid [OF that]] lN [of "hashKey (h ! a)"] by auto
  have B: "if variantKeys (h ! a) \<subseteq> variantKeys (h ! t)
           then hashKey (h ! a) \<notin> unitKeys dm h'
           else \<exists>e \<in> set (tu dm). length h \<le> e
                  \<and> hashKey (h' ! e) = hashKey (h ! a)
                  \<and> tu_source (h' ! e) = tu_source (h ! a)
                  \<and> tu_sourceLocale (h' ! e) = tu_sourceLocale (h ! a)
                  \<and> tu_target (h' ! e) = tu_target (h ! a)
                  \<and> tu_targetLocale (h' ! e) = tu_targetLocale (h ! a)
                  \<and> tu_datatype (h' ! e) = tu_datatype (h ! a)
                  \<and> variantKeys (h' ! e)
                      = insert (tu_sourceLocale (h ! a), tu_source (h ! a))
                          (variantKeys (h ! a) - variantKeys (h ! t))"
    if a: "a \<in> set (tu other)" and t: "t \<in> set (tu this)" "hashKey (h ! t) = hashKey (h ! a)" for a t
  proof -
    have look: "map_of (tuhash this) (hashKey (h ! a)) = Some t" using lS t by simp
    show ?thesis
    proof (cases "variantKeys (h ! a) \<subseteq> variantKeys (h ! t)")
      case True
      then have empty: "variantDiff (h ! t) (h ! a) = []" by (simp add: variantDiff_empty)
      have "hashKey (h' ! e) \<noteq> hashKey (h ! a)" if e: "e \<in> set (tu dm)" for e
      proof
        assume eq: "hashKey (h' ! e) = hashKey (h ! a)"
        from kind [OF e] show False
        proof
          assume k: "e \<in> set (tu other) \<and> map_of (tuhash this) (hashKey (h ! e)) = None"
          then have "h' ! e = h ! e" using frame valid by simp
          then show False using k eq look by simp
        next
          assume "length h \<le> e
                  \<and> (\<exists>a \<in> set (tu other). \<exists>t. map_of (tuhash this) (hashKey (h ! a)) = Some t
                         \<and> variantDiff (h ! t) (h ! a) \<noteq> []
                         \<and> h' ! e = changedUnit (h ! t) (h ! a))"
          then obtain a' t' where a': "a' \<in> set (tu other)"
            "map_of (tuhash this) (hashKey (h ! a')) = Some t'"
            "variantDiff (h ! t') (h ! a') \<noteq> []" "h' ! e = changedUnit (h ! t') (h ! a')" by auto
          then have "hashKey (h ! a') = hashKey (h ! a)" using eq by simp
          then have "a' = a" using inj a' a by simp
          then show False using a' look empty by simp
        qed
      qed
      then have "hashKey (h ! a) \<notin> unitKeys dm h'" unfolding unitKeys_def by force
      then show ?thesis using True by simp
    next
      case False
      then have "variantDiff (h ! t) (h ! a) \<noteq> []" by (simp add: variantDiff_empty)
      with all [OF a] look obtain e where
        "e \<in> set (tu dm)" "length h \<le> e" "h' ! e = changedUnit (h ! t) (h ! a)" by auto
      then show ?thesis using False by (auto simp: variantKeys_changedUnit)
    qed
  qed
  have C: "(e \<in> set (tu other) \<and> hashKey (h ! e) \<notin> unitKeys this h)
           \<or> (length h \<le> e
               \<and> (\<exists>a \<in> set (tu other). \<exists>t \<in> set (tu this).
                      hashKey (h ! t) = hashKey (h ! a)
                      \<and> \<not> variantKeys (h ! a) \<subseteq> variantKeys (h ! t)
                      \<and> hashKey (h' ! e) = hashKey (h ! a)
                      \<and> variantKeys (h' ! e)
                          = insert (tu_sourceLocale (h ! a), tu_source (h ! a))
                              (variantKeys (h ! a) - variantKeys (h ! t))))"
    if e: "e \<in> set (tu dm)" for e
    using kind [OF e]
  proof
    assume "e \<in> set (tu other) \<and> map_of (tuhash this) (hashKey (h ! e)) = None"
    then show ?thesis using lN by simp
  next
    assume "length h \<le> e
                  \<and> (\<exists>a \<in> set (tu other). \<exists>t. map_of (tuhash this) (hashKey (h ! a)) = Some t
                         \<and> variantDiff (h ! t) (h ! a) \<noteq> []
                         \<and> h' ! e = changedUnit (h ! t) (h ! a))"
    then obtain a t where "length h \<le> e" "a \<in> set (tu other)"
      "map_of (tuhash this) (hashKey (h ! a)) = Some t"
      "variantDiff (h ! t) (h ! a) \<noteq> []" "h' ! e = changedUnit (h ! t) (h ! a)" by auto
    then have "length h \<le> e \<and> a \<in> set (tu other) \<and> t \<in> set (tu this)
       \<and> hashKey (h ! t) = hashKey (h ! a) \<and> \<not> variantKeys (h ! a) \<subseteq> variantKeys (h ! t)
       \<and> hashKey (h' ! e) = hashKey (h ! a)
       \<and> variantKeys (h' ! e)
           = insert (tu_sourceLocale (h ! a), tu_source (h ! a))
               (variantKeys (h ! a) - variantKeys (h ! t))"
      using lS [of "hashKey (h ! a)" t] by (simp add: variantDiff_empty variantKeys_changedUnit)
    then show ?thesis by blast
  qed
  have D: "distinct (map (\<lambda>e. hashKey (h' ! e)) (tu dm))"
    by (rule consistent_distinct_keys [OF cons])
  have E: "unitKeys dm h' \<subseteq> unitKeys other h"
    using keys by (auto simp: unitKeys_def)
  show ?thesis
    unfolding d using A B C D E frame by simp
qed

lemma diff_XY:
  "diff docX docY storeXY =
     (docX\<lparr>tu := [2], tuhash := [(keyHello, 2)]\<rparr>,
      [unitX, unitY,
       unitY\<lparr>tu_variants := [\<lparr>tv_locale = Some ''en'', tv_string = Some ''Hello''\<rparr>,
                              \<lparr>tv_locale = Some ''fr'', tv_string = Some ''Salut''\<rparr>,
                              \<lparr>tv_locale = Some ''de'', tv_string = Some ''Hallo''\<rparr>]\<rparr>])"
  by code_simp

lemma consistent_XY: "consistent docX storeXY" "consistent docY storeXY"
  by code_simp+

text \<open>
  The documents A and B: both units have en:Hello, so the difference is the part of B's
  variants that A lacks. \<open>A.diff(B)\<close> holds one new unit with the source variant, the
  changed fr:Salut and the new de:Hallo; \<open>B.diff(A)\<close> holds one new unit with the
  source variant and fr:Bonjour, which B lacks.
\<close>

lemma diff_AB:
  "diff docX docY storeAB =
     (docX\<lparr>tu := [2], tuhash := [(keyHello, 2)]\<rparr>,
      [unitHelloFr, unitB,
       unitB\<lparr>tu_variants := [\<lparr>tv_locale = Some ''en'', tv_string = Some ''Hello''\<rparr>,
                              \<lparr>tv_locale = Some ''fr'', tv_string = Some ''Salut''\<rparr>,
                              \<lparr>tv_locale = Some ''de'', tv_string = Some ''Hallo''\<rparr>]\<rparr>])"
  by code_simp

lemma diff_BA:
  "diff docY docX storeAB =
     (docX\<lparr>tu := [2], tuhash := [(keyHello, 2)]\<rparr>,
      [unitHelloFr, unitB,
       unitB\<lparr>tu_variants := [\<lparr>tv_locale = Some ''en'', tv_string = Some ''Hello''\<rparr>,
                              \<lparr>tv_locale = Some ''fr'', tv_string = Some ''Bonjour''\<rparr>]\<rparr>])"
  by code_simp

lemma consistent_AB: "consistent docX storeAB" "consistent docY storeAB"
  by code_simp+

theorem diff_content_witness:
  "consistent docX storeAB \<and> consistent docY storeAB
   \<and> variantKeys (storeAB ! 0) = {(Some ''en'', Some ''Hello''), (Some ''fr'', Some ''Bonjour'')}
   \<and> variantKeys (storeAB ! 1)
       = {(Some ''en'', Some ''Hello''), (Some ''fr'', Some ''Salut''), (Some ''de'', Some ''Hallo'')}
   \<and> (case diff docX docY storeAB of (dm, h') \<Rightarrow>
         tu dm = [2]
         \<and> unitKeys dm h' \<subseteq> unitKeys docY storeAB
         \<and> variantKeys (h' ! 2)
             = {(Some ''en'', Some ''Hello''), (Some ''fr'', Some ''Salut''), (Some ''de'', Some ''Hallo'')}
         \<and> take 2 h' = storeAB)"
proof -
  have v: "variantKeys (storeAB ! 0) = {(Some ''en'', Some ''Hello''), (Some ''fr'', Some ''Bonjour'')}"
    "variantKeys (storeAB ! 1)
       = {(Some ''en'', Some ''Hello''), (Some ''fr'', Some ''Salut''), (Some ''de'', Some ''Hallo'')}"
    by code_simp+
  have t: "case diff docX docY storeAB of (dm, h') \<Rightarrow> tu dm = [2] \<and> take 2 h' = storeAB
             \<and> variantKeys (h' ! 2)
             = {(Some ''en'', Some ''Hello''), (Some ''fr'', Some ''Salut''), (Some ''de'', Some ''Hallo'')}"
    by code_simp
  show ?thesis
    using diff_content [OF consistent_AB] consistent_AB v t
    by (auto split: prod.splits)
qed

subsection \<open>What diff and merge leave unchanged\<close>

lemma extended_refl [simp]: "extended u u"
  by (simp add: extended_def)

lemma extended_trans: "extended u v \<Longrightarrow> extended v w \<Longrightarrow> extended u w"
  unfolding extended_def
  by (metis (no_types, lifting) prefix_order.trans tunit.surjective tunit.update_convs(10))

lemma extended_addVariant: "extended u (addVariant v u)"
  by (simp add: extended_def addVariant_def)

lemma extended_addVariants: "extended u (addVariants vs u)"
  unfolding addVariants_def
proof (induction vs arbitrary: u)
  case Nil
  then show ?case by simp
next
  case (Cons v vs)
  show ?case
    using extended_trans [OF extended_addVariant [of u v] Cons.IH [of "addVariant v u"]] by simp
qed

lemma addTranslationUnit_grows:
  assumes idx: "\<forall>k e. map_of (tuhash m) k = Some e \<longrightarrow> e \<in> set (tu m)"
  shows "case addTranslationUnit a (m, h) of (m', h') \<Rightarrow>
           length h' = length h
           \<and> (\<forall>k e. map_of (tuhash m') k = Some e \<longrightarrow> e \<in> set (tu m'))
           \<and> set (tu m) \<subseteq> set (tu m')
           \<and> (\<forall>c. c \<notin> set (tu m') \<longrightarrow> h' ! c = h ! c)
           \<and> (\<forall>c. extended (h ! c) (h' ! c))"
proof (cases "map_of (tuhash m) (hashKey (h ! a))")
  case None
  then show ?thesis
    using idx by (auto simp: addTranslationUnit_def update_conv' simp del: split_paired_All)
next
  case (Some e)
  then have "e \<in> set (tu m)" using idx by blast
  then show ?thesis
    using Some idx by (auto simp: addTranslationUnit_def nth_update_eq extended_addVariants
        simp del: split_paired_All)
qed

lemma fold_addTranslationUnit_grows:
  assumes "\<forall>k e. map_of (tuhash m) k = Some e \<longrightarrow> e \<in> set (tu m)"
  shows "case fold addTranslationUnit xs (m, h) of (m', h') \<Rightarrow>
           length h' = length h
           \<and> (\<forall>k e. map_of (tuhash m') k = Some e \<longrightarrow> e \<in> set (tu m'))
           \<and> set (tu m) \<subseteq> set (tu m')
           \<and> (\<forall>c. c \<notin> set (tu m') \<longrightarrow> h' ! c = h ! c)
           \<and> (\<forall>c. extended (h ! c) (h' ! c))"
  using assms
proof (induction xs arbitrary: m h)
  case Nil
  then show ?case by simp
next
  case (Cons a xs)
  obtain m1 h1 where s1: "addTranslationUnit a (m, h) = (m1, h1)"
    by (cases "addTranslationUnit a (m, h)") auto
  from addTranslationUnit_grows [OF Cons.prems, where a = a and h = h] s1
  have 1: "length h1 = length h" "\<forall>k e. map_of (tuhash m1) k = Some e \<longrightarrow> e \<in> set (tu m1)"
    "set (tu m) \<subseteq> set (tu m1)" "\<And>c. c \<notin> set (tu m1) \<Longrightarrow> h1 ! c = h ! c"
    "\<And>c. extended (h ! c) (h1 ! c)"
    by auto
  obtain m' h' where s2: "fold addTranslationUnit xs (m1, h1) = (m', h')"
    by (cases "fold addTranslationUnit xs (m1, h1)") auto
  from Cons.IH [OF 1(2), where h = h1] s2
  have 2: "length h' = length h1" "\<forall>k e. map_of (tuhash m') k = Some e \<longrightarrow> e \<in> set (tu m')"
    "set (tu m1) \<subseteq> set (tu m')" "\<And>c. c \<notin> set (tu m') \<Longrightarrow> h' ! c = h1 ! c"
    "\<And>c. extended (h1 ! c) (h' ! c)"
    by auto
  have "h' ! c = h ! c" if "c \<notin> set (tu m')" for c
    using 2(4) [OF that] 1(4) [of c] 2(3) that by auto
  moreover have "extended (h ! c) (h' ! c)" for c
    using extended_trans [OF 1(5) 2(5)] .
  ultimately show ?case
    using s1 s2 1 2 by auto
qed

lemma merge_grows:
  assumes "tmxs \<noteq> []"
  shows "\<exists>m h'. merge this tmxs h = (NewTMX m, h')
           \<and> length h' = length h
           \<and> (\<forall>c. c \<notin> set (tu m) \<longrightarrow> h' ! c = h ! c)
           \<and> (\<forall>c. extended (h ! c) (h' ! c))"
proof -
  obtain m h' where f: "fold addTranslationUnit (visited this tmxs)
                          (TMX_new (Some (derivedOptions this)), h) = (m, h')"
    by (cases "fold addTranslationUnit (visited this tmxs) (TMX_new (Some (derivedOptions this)), h)") auto
  have m: "merge this tmxs h = (NewTMX m, h')"
    using merge_as_fold [OF assms, of this h] f by simp
  have "\<forall>k e. map_of (tuhash (TMX_new (Some (derivedOptions this)))) k = Some e
          \<longrightarrow> e \<in> set (tu (TMX_new (Some (derivedOptions this))))"
    by simp
  from fold_addTranslationUnit_grows [OF this, where xs = "visited this tmxs" and h = h] f m
  show ?thesis by auto
qed

lemma diffStep_frame:
  assumes frame: "length h0 \<le> length h" "\<forall>c < length h0. h ! c = h0 ! c"
    and idx: "fst ` set (tuhash dm) \<subseteq> (\<lambda>b. hashKey (h0 ! b)) ` set xs"
    and a: "a < length h0" and fresh: "hashKey (h0 ! a) \<notin> (\<lambda>b. hashKey (h0 ! b)) ` set xs"
  shows "case diffStep this a (dm, h) of (dm', h') \<Rightarrow>
           length h0 \<le> length h' \<and> (\<forall>c < length h0. h' ! c = h0 ! c)
           \<and> fst ` set (tuhash dm') \<subseteq> (\<lambda>b. hashKey (h0 ! b)) ` set (xs @ [a])"
proof -
  have ha: "h ! a = h0 ! a" using frame a by simp
  have none: "map_of (tuhash dm) (hashKey (h0 ! a)) = None"
    using idx fresh by (auto simp: map_of_eq_None_iff)
  have new: "case addTranslationUnit n (dm, g) of (dm', h') \<Rightarrow>
               h' = g \<and> fst ` set (tuhash dm') \<subseteq> (\<lambda>b. hashKey (h0 ! b)) ` set (xs @ [a])"
    if "hashKey (g ! n) = hashKey (h0 ! a)" for n g
    using that none idx by (auto simp: addTranslationUnit_def dom_update)
  show ?thesis
  proof (cases "map_of (tuhash this) (hashKey (h0 ! a))")
    case None
    obtain dm' where "addTranslationUnit a (dm, h) = (dm', h)"
      "fst ` set (tuhash dm') \<subseteq> (\<lambda>b. hashKey (h0 ! b)) ` set (xs @ [a])"
      using new [of h a] ha by (cases "addTranslationUnit a (dm, h)") simp
    then show ?thesis
      using None ha frame by (simp add: diffStep_eq)
  next
    case (Some t)
    show ?thesis
    proof (cases "variantDiff (h ! t) (h ! a) = []")
      case True
      then show ?thesis using Some ha frame idx by (auto simp: diffStep_eq)
    next
      case False
      let ?g = "h @ [changedUnit (h ! t) (h ! a)]"
      have "hashKey (?g ! length h) = hashKey (h0 ! a)"
        using ha by simp
      from new [OF this]
      obtain dm' where "addTranslationUnit (length h) (dm, ?g) = (dm', ?g)"
        "fst ` set (tuhash dm') \<subseteq> (\<lambda>b. hashKey (h0 ! b)) ` set (xs @ [a])"
        by (cases "addTranslationUnit (length h) (dm, ?g)") simp
      then show ?thesis
        using False Some ha frame by (simp add: diffStep_eq nth_append)
    qed
  qed
qed

lemma diff_fold_frame:
  assumes "length h0 \<le> length h" "\<forall>c < length h0. h ! c = h0 ! c"
    "fst ` set (tuhash dm) \<subseteq> (\<lambda>b. hashKey (h0 ! b)) ` set xs"
    "\<forall>a \<in> set ys. a < length h0" "distinct (map (\<lambda>b. hashKey (h0 ! b)) (xs @ ys))"
  shows "case fold (diffStep this) ys (dm, h) of (dm', h') \<Rightarrow>
           length h0 \<le> length h' \<and> (\<forall>c < length h0. h' ! c = h0 ! c)"
  using assms
proof (induction ys arbitrary: xs dm h)
  case Nil
  then show ?case by simp
next
  case (Cons a ys)
  obtain dm1 h1 where s1: "diffStep this a (dm, h) = (dm1, h1)"
    by (cases "diffStep this a (dm, h)") auto
  have a: "a < length h0" using Cons.prems(4) by simp
  have fresh: "hashKey (h0 ! a) \<notin> (\<lambda>b. hashKey (h0 ! b)) ` set xs"
    using Cons.prems(5) by auto
  from diffStep_frame [OF Cons.prems(1,2,3) a fresh, where this = this] s1
  have 1: "length h0 \<le> length h1" "\<forall>c < length h0. h1 ! c = h0 ! c"
    "fst ` set (tuhash dm1) \<subseteq> (\<lambda>b. hashKey (h0 ! b)) ` set (xs @ [a])"
    by auto
  have "\<forall>a \<in> set ys. a < length h0" "distinct (map (\<lambda>b. hashKey (h0 ! b)) ((xs @ [a]) @ ys))"
    using Cons.prems(4,5) by auto
  from Cons.IH [OF 1 this] show ?case using s1 by simp
qed

lemma diff_leaves_units:
  assumes "consistent other h"
  shows "case diff this other h of (dm, h') \<Rightarrow>
           length h \<le> length h' \<and> (\<forall>c < length h. h' ! c = h ! c)"
proof -
  have "\<forall>a \<in> set (tu other). a < length h" using consistentD(3) [OF assms] by simp
  moreover have "distinct (map (\<lambda>b. hashKey (h ! b)) ([] @ tu other))"
    using consistent_distinct_keys [OF assms] by simp
  ultimately show ?thesis
    using diff_fold_frame [where ?h0.0 = h and h = h and dm = "TMX_new (Some (derivedOptions this))"
        and xs = "[]" and ys = "tu other" and this = this]
    by (simp add: diff_def)
qed

text \<open>
  C2 fails for \<open>merge\<close>. In the world of X and Y, \<open>X.merge([])\<close> returns X itself, not
  a new document; and \<open>X.merge([Y])\<close> stores the unit of X, the object itself, in the new
  document and then adds the variants of Y to it, so the variant list of a unit of the
  receiver is no longer what it was before the call. \<open>diff\<close> adds the units of \<open>other\<close>
  that the receiver lacks to the new document in the same way: when the unit list of
  \<open>other\<close> holds two units of one key, a state that the unit list and the index of a
  document never reach through the operations of the class, the first of them gains the
  variants of the second.
\<close>

theorem merge_changes_receiver_units:
  "0 \<in> set (tu (w_docs worldXY ! 0))
   \<and> fst (mergeRef 0 [] worldXY) = 0
   \<and> tu_variants (w_units (snd (mergeRef 0 [1] worldXY)) ! 0) \<noteq> tu_variants (w_units worldXY ! 0)
   \<and> 0 \<in> set (tu (w_docs worldTwice ! 1))
   \<and> tu_variants (w_units (snd (diffRef 0 1 worldTwice)) ! 0) \<noteq> tu_variants (w_units worldTwice ! 0)"
  by code_simp

text \<open>
  C2, amended. \<open>diff\<close> returns a newly allocated document and leaves every document as it
  was; when the unit list and the index of \<open>other\<close> agree, it leaves every unit that
  existed before the call as it was. \<open>merge\<close> of no document returns the receiver and
  changes nothing. \<open>merge\<close> of some documents returns a newly allocated document and leaves
  every document that existed before the call as it was (unit list and index); a unit
  that existed before the call keeps all its fields and its variants, unchanged and in
  place, and can only gain variants at the end of its list; and a unit that is not a unit
  of the result is left as it was. Which variants a unit of the result gains is stated
  with the result of a merge, above.
\<close>

theorem diff_merge_frame:
  "(case diffRef this other w of (r, w') \<Rightarrow>
      r = length (w_docs w) \<and> length (w_docs w') = Suc (length (w_docs w))
      \<and> (\<forall>i < length (w_docs w). w_docs w' ! i = w_docs w ! i)
      \<and> (consistent (w_docs w ! other) (w_units w)
           \<longrightarrow> (\<forall>c < length (w_units w). w_units w' ! c = w_units w ! c)))
   \<and> mergeRef this [] w = (this, w)
   \<and> (tmxs \<noteq> [] \<longrightarrow>
        (case mergeRef this tmxs w of (r, w') \<Rightarrow>
           r = length (w_docs w) \<and> length (w_docs w') = Suc (length (w_docs w))
           \<and> (\<forall>i < length (w_docs w). w_docs w' ! i = w_docs w ! i)
           \<and> (\<forall>c < length (w_units w).
                 extended (w_units w ! c) (w_units w' ! c)
                 \<and> (c \<notin> set (tu (w_docs w' ! r)) \<longrightarrow> w_units w' ! c = w_units w ! c))))"
proof (intro conjI impI)
  show "case diffRef this other w of (r, w') \<Rightarrow>
      r = length (w_docs w) \<and> length (w_docs w') = Suc (length (w_docs w))
      \<and> (\<forall>i < length (w_docs w). w_docs w' ! i = w_docs w ! i)
      \<and> (consistent (w_docs w ! other) (w_units w)
           \<longrightarrow> (\<forall>c < length (w_units w). w_units w' ! c = w_units w ! c))"
    using diff_leaves_units [of "w_docs w ! other" "w_units w" "w_docs w ! this"]
    by (auto simp: diffRef_def nth_append split: prod.splits)
next
  show "mergeRef this [] w = (this, w)" by (simp add: mergeRef_def merge_def)
next
  assume ne: "tmxs \<noteq> []"
  then have "map (\<lambda>r. w_docs w ! r) tmxs \<noteq> []" by simp
  from merge_grows [OF this, of "w_docs w ! this" "w_units w"]
  obtain m h' where m: "merge (w_docs w ! this) (map (\<lambda>r. w_docs w ! r) tmxs) (w_units w) = (NewTMX m, h')"
    and frame: "\<And>c. c \<notin> set (tu m) \<Longrightarrow> h' ! c = w_units w ! c"
    and ext: "\<And>c. extended (w_units w ! c) (h' ! c)"
    by blast
  then show "case mergeRef this tmxs w of (r, w') \<Rightarrow>
           r = length (w_docs w) \<and> length (w_docs w') = Suc (length (w_docs w))
           \<and> (\<forall>i < length (w_docs w). w_docs w' ! i = w_docs w ! i)
           \<and> (\<forall>c < length (w_units w).
                 extended (w_units w ! c) (w_units w' ! c)
                 \<and> (c \<notin> set (tu (w_docs w' ! r)) \<longrightarrow> w_units w' ! c = w_units w ! c))"
    by (simp add: mergeRef_def m nth_append)
qed

theorem diff_merge_frame_witness:
  "consistent (w_docs worldXY ! 1) (w_units worldXY)
   \<and> fst (diffRef 0 1 worldXY) = 2
   \<and> take 2 (w_docs (snd (diffRef 0 1 worldXY))) = w_docs worldXY
   \<and> take 2 (w_units (snd (diffRef 0 1 worldXY))) = w_units worldXY
   \<and> mergeRef 0 [] worldXY = (0, worldXY)
   \<and> fst (mergeRef 0 [1] worldXY) = 2
   \<and> take 2 (w_docs (snd (mergeRef 0 [1] worldXY))) = w_docs worldXY
   \<and> extended (w_units worldXY ! 0) (w_units (snd (mergeRef 0 [1] worldXY)) ! 0)
   \<and> w_units (snd (mergeRef 0 [1] worldXY)) ! 1 = w_units worldXY ! 1"
proof -
  have c: "consistent (w_docs worldXY ! 1) (w_units worldXY)"
    using consistent_XY by (simp add: worldXY_def)
  have l: "length (w_docs worldXY) = 2" "length (w_units worldXY) = 2"
    by (simp_all add: worldXY_def storeXY_def)
  have t: "tu (w_docs (snd (mergeRef 0 [1] worldXY)) ! 2) = [0]"
    by (simp add: mergeRef_def worldXY_def merge_XY) (simp add: docX_def)
  have two: "take 2 xs = ys"
    if "length xs = Suc 2" "length ys = 2" "\<forall>i < 2. xs ! i = ys ! i" for xs ys :: "'a list"
    using that by (auto simp: list_eq_iff_nth_eq)
  obtain r1 w1 where d: "diffRef 0 1 worldXY = (r1, w1)" by (cases "diffRef 0 1 worldXY") auto
  obtain r2 w2 where m: "mergeRef 0 [1] worldXY = (r2, w2)" by (cases "mergeRef 0 [1] worldXY") auto
  have lu: "length (w_units w1) = Suc 2"
    using d by (simp add: diffRef_def worldXY_def diff_XY) (auto simp: storeXY_def)
  from diff_merge_frame [where w = worldXY and this = 0 and other = 1 and tmxs = "[1]"] c l t d m
  have "r1 = 2" "length (w_docs w1) = Suc 2" "\<forall>i < 2. w_docs w1 ! i = w_docs worldXY ! i"
    "\<forall>c < 2. w_units w1 ! c = w_units worldXY ! c" "mergeRef 0 [] worldXY = (0, worldXY)"
    "r2 = 2" "length (w_docs w2) = Suc 2" "\<forall>i < 2. w_docs w2 ! i = w_docs worldXY ! i"
    "extended (w_units worldXY ! 0) (w_units w2 ! 0)" "w_units w2 ! 1 = w_units worldXY ! 1"
    by auto
  then show ?thesis
    using c d m l lu two [of "w_docs w1" "w_docs worldXY"] two [of "w_docs w2" "w_docs worldXY"]
      two [of "w_units w1" "w_units worldXY"]
    by simp
qed

subsection \<open>The round trip through the wire tree\<close>

text \<open>
  The round trip is \<open>deserialize\<close> applied to the tree that \<open>serialize\<close> builds: what
  \<open>js2xml\<close> writes and \<open>xml2js\<close> reads back is taken to be that tree.
\<close>

lemma get_prop_update:
  "get_prop (AList.update k v ps) k' = (if k = k' then v else get_prop ps k')"
  by (simp add: get_prop_def update_conv')

lemma parseVariant_serialized:
  assumes "truthy (tv_locale v)" "truthy (tv_string v)"
  shows "parseVariant segText (serializeTranslationVariant v) (u, lg) = Done () (readVariant v u, lg)"
proof -
  obtain l s where v: "v = \<lparr>tv_locale = Some l, tv_string = Some s\<rparr>" and ne: "l \<noteq> []" "s \<noteq> []"
    using assms by (cases v) (auto simp: truthy_def split: option.splits)
  show ?thesis
    unfolding v
    by (simp add: parseVariant_def serializeTranslationVariant_def get_prop_def contextText_def
        readVariant_def Let_def truthy_def ne)
qed

lemma parseVariants_serialized:
  assumes "list_all (\<lambda>v. truthy (tv_locale v) \<and> truthy (tv_string v)) vs"
  shows "forEach (parseVariant segText) (map serializeTranslationVariant vs) (u, lg)
           = Done () (fold readVariant vs u, lg)"
  using assms
  by (induction vs arbitrary: u) (simp_all add: parseVariant_serialized)

lemma readVariant_fields [simp]:
  "tu_sourceLocale (readVariant v u) = tu_sourceLocale u"
  "tu_datatype (readVariant v u) = tu_datatype u"
  "tu_source (readVariant v u) = (if tv_locale v = tu_sourceLocale u then tv_string v else tu_source u)"
  "tu_variants (readVariant v u) = tu_variants (addVariant v u)"
  by (auto simp: readVariant_def Let_def addVariant_def)

lemma fold_readVariant:
  assumes "distinct (map vhashKey (tu_variants u @ vs))"
  shows "tu_sourceLocale (fold readVariant vs u) = tu_sourceLocale u
         \<and> tu_datatype (fold readVariant vs u) = tu_datatype u
         \<and> tu_variants (fold readVariant vs u) = tu_variants u @ vs
         \<and> tu_source (fold readVariant vs u)
             = fold (\<lambda>v acc. if tv_locale v = tu_sourceLocale u then tv_string v else acc) vs (tu_source u)"
  using assms
proof (induction vs arbitrary: u)
  case Nil
  then show ?case by simp
next
  case (Cons v vs)
  have new: "vhashKey v \<notin> vhashKey ` set (tu_variants u)" using Cons.prems by auto
  then have av: "tu_variants (addVariant v u) = tu_variants u @ [v]"
    by (simp add: addVariant_def)
  have "distinct (map vhashKey (tu_variants (readVariant v u) @ vs))"
    using Cons.prems by (simp add: av)
  from Cons.IH [OF this] show ?case by (simp add: av)
qed


lemma unitProps_fold_serialized:
  "snd (fold (\<lambda>prop (ps, lg).
             case el_attributes prop of
               None \<Rightarrow> (ps, lg @ [LogWarn ''Found a prop tag without a name attribute''])
             | Some attrs \<Rightarrow>
                 (AList.update (case get_prop attrs ''type'' of
                                  None \<Rightarrow> ''undefined''
                                | Some t \<Rightarrow> t)
                    (el_text prop) ps, lg))
          (map (\<lambda>(p, v). \<lparr>el_attributes = Some [(''type'', Some p)], el_text = v\<rparr>) xs) acc)
     = snd acc"
  by (induction xs arbitrary: acc) (auto split: prod.splits)

lemma unitProps_serialized:
  "snd (unitProps (map (\<lambda>(p, v). \<lparr>el_attributes = Some [(''type'', Some p)], el_text = v\<rparr>) xs)) = []"
  unfolding unitProps_def using unitProps_fold_serialized [of xs "([], [])"] by simp

lemma addProperties_fields [simp]:
  "tu_variants (addProperties ps u) = tu_variants u"
  "tu_source (addProperties ps u) = tu_source u"
  "tu_sourceLocale (addProperties ps u) = tu_sourceLocale u"
  "tu_datatype (addProperties ps u) = tu_datatype u"
  by (simp_all add: addProperties_def)

lemma lastSource_fold:
  "fold (\<lambda>v acc. if tv_locale v = sl then tv_string v else acc) vs None = lastSource sl vs"
  by (simp add: lastSource_def)

lemma parseUnit_serialized:
  assumes "unitRoundTrips dt u" "get_prop (properties r) ''datatype'' = dt"
    "serializeTranslationUnit u = Some j"
  shows "\<exists>u'. parseUnit segText r j lg = Done () (u', lg)
               \<and> hashKey u' = hashKey u \<and> tu_variants u' = tu_variants u"
proof -
  from assms(1) have vs: "list_all (\<lambda>v. truthy (tv_locale v) \<and> truthy (tv_string v)) (tu_variants u)"
    and dist: "distinct (map vhashKey (tu_variants u))"
    and sl: "truthy (tu_sourceLocale u)"
    and dt: "tu_datatype u = dt"
    and src: "tu_source u = lastSource (tu_sourceLocale u) (tu_variants u)"
    by (auto simp: unitRoundTrips_def)
  have j: "j = \<lparr> jtu_attributes = Some [(''srclang'', tu_sourceLocale u)],
          jtu_prop = map (\<lambda>(p, v). \<lparr>el_attributes = Some [(''type'', Some p)], el_text = v\<rparr>)
                       (tu_properties u),
          jtu_note = None,
          jtu_tuv = map serializeTranslationVariant (tu_variants u) \<rparr>"
    using assms(3) by (auto simp: serializeTranslationUnit_def split: if_splits)
  define u0 where "u0 = TranslationUnit_empty
                 \<lparr> tu_sourceLocale := tu_sourceLocale u, tu_datatype := dt \<rparr>"
  define ps where "ps = fst (unitProps (jtu_prop j))"
  define u2 where "u2 = (if jtu_prop j = [] then u0 else addProperties ps u0)"
  have u2: "tu_variants u2 = []" "tu_source u2 = None" "tu_sourceLocale u2 = tu_sourceLocale u"
    "tu_datatype u2 = dt"
    by (simp_all add: u2_def u0_def TranslationUnit_empty_def)
  have w: "snd (unitProps (jtu_prop j)) = []"
    unfolding j by (simp add: unitProps_serialized)
  have "parseUnit segText r j lg = forEach (parseVariant segText) (jtu_tuv j) (u2, lg)"
    using sl w assms(2)
    by (auto simp: parseUnit_def Let_def u2_def u0_def ps_def j get_prop_def truthy_def
        split: prod.splits)
  also have "\<dots> = Done () (fold readVariant (tu_variants u) u2, lg)"
    unfolding j using parseVariants_serialized [OF vs] by simp
  finally have p: "parseUnit segText r j lg = Done () (fold readVariant (tu_variants u) u2, lg)" .
  have "distinct (map vhashKey (tu_variants u2 @ tu_variants u))" using dist u2 by simp
  from fold_readVariant [OF this]
  have "hashKey (fold readVariant (tu_variants u) u2) = hashKey u"
    "tu_variants (fold readVariant (tu_variants u) u2) = tu_variants u"
    using u2 dt src by (simp_all add: hashKey_def lastSource_fold)
  then show ?thesis using p by simp
qed

lemma upt_shift: "[n ..< n + Suc k] = n # [Suc n ..< Suc n + k]"
  by (simp add: upt_rec)

lemma unitLoop_serialized:
  assumes "\<forall>u \<in> set us. unitRoundTrips dt u \<and> map_of (tuhash r) (hashKey u) = None"
    "distinct (map hashKey us)" "get_prop (properties r) ''datatype'' = dt"
    "\<forall>u \<in> set us. 2 \<le> length (tu_variants u)"
  shows "\<exists>r' h'. forEach (unitStep segText) (map (\<lambda>u. the (serializeTranslationUnit u)) us) (r, h, lg)
                    = Done () (r', h', lg)
           \<and> tu r' = tu r @ [length h ..< length h + length us]
           \<and> length h' = length h + length us
           \<and> (\<forall>i < length h. h' ! i = h ! i)
           \<and> (\<forall>i < length us. hashKey (h' ! (length h + i)) = hashKey (us ! i)
                               \<and> tu_variants (h' ! (length h + i)) = tu_variants (us ! i))"
  using assms
proof (induction us arbitrary: r h)
  case Nil
  then show ?case by simp
next
  case (Cons u us)
  have ser: "serializeTranslationUnit u = Some (the (serializeTranslationUnit u))"
    using Cons.prems(4) by (simp add: serializeTranslationUnit_def)
  have rt: "unitRoundTrips dt u" and none: "map_of (tuhash r) (hashKey u) = None"
    using Cons.prems(1) by auto
  from parseUnit_serialized [OF rt Cons.prems(3) ser, of segText lg]
  obtain u' where u': "parseUnit segText r (the (serializeTranslationUnit u)) lg = Done () (u', lg)"
    "hashKey u' = hashKey u" "tu_variants u' = tu_variants u" by auto
  let ?r = "r\<lparr>tu := tu r @ [length h], tuhash := AList.update (hashKey u) (length h) (tuhash r)\<rparr>"
  let ?h = "h @ [u']"
  have step: "unitStep segText (the (serializeTranslationUnit u)) (r, h, lg) = Done () (?r, ?h, lg)"
    using u' none by (simp add: unitStep_def alloc_def addTranslationUnit_def)
  have pre: "\<forall>v \<in> set us. unitRoundTrips dt v \<and> map_of (tuhash ?r) (hashKey v) = None"
    using Cons.prems(1,2) by (auto simp: update_conv' image_iff)
  from Cons.IH [OF pre, of ?h] Cons.prems(2,3,4)
  obtain r' h' where ih:
    "forEach (unitStep segText) (map (\<lambda>u. the (serializeTranslationUnit u)) us) (?r, ?h, lg)
       = Done () (r', h', lg)"
    "tu r' = tu ?r @ [length ?h ..< length ?h + length us]"
    "length h' = length ?h + length us"
    "\<forall>i < length ?h. h' ! i = ?h ! i"
    "\<forall>i < length us. hashKey (h' ! (length ?h + i)) = hashKey (us ! i)
                      \<and> tu_variants (h' ! (length ?h + i)) = tu_variants (us ! i)"
    by auto
  have 1: "forEach (unitStep segText) (map (\<lambda>u. the (serializeTranslationUnit u)) (u # us)) (r, h, lg)
             = Done () (r', h', lg)"
    using step ih(1) by simp
  have 2: "tu r' = tu r @ [length h ..< length h + length (u # us)]"
    using ih(2) upt_shift [of "length h" "length us"] by simp
  have 3: "length h' = length h + length (u # us)" using ih(3) by simp
  have 4: "\<forall>i < length h. h' ! i = h ! i"
    using ih(4) by (auto simp: nth_append)
  have 5: "hashKey (h' ! (length h + i)) = hashKey ((u # us) ! i)
           \<and> tu_variants (h' ! (length h + i)) = tu_variants ((u # us) ! i)"
    if "i < length (u # us)" for i
  proof (cases i)
    case 0
    have "h' ! length h = u'" using ih(4) by (auto simp: nth_append)
    then show ?thesis using 0 u' by simp
  next
    case (Suc k)
    then have "k < length us" using that by simp
    then show ?thesis using ih(5) Suc by simp
  qed
  show ?case using 1 2 3 4 5 by blast
qed


lemma parseHeader_datatype:
  assumes "tmx_header t = Some \<lparr>header_attributes = Some attrs, header_prop = hp\<rparr>"
    "truthy (get_prop attrs ''datatype'')"
  shows "get_prop (properties (parseHeader t r)) ''datatype'' = get_prop attrs ''datatype''"
  using assms
  by (simp add: parseHeader_def headerAttrs_def get_prop_update Let_def split: option.splits)

lemma serialize_shape:
  "\<exists>attrs hp. serialize pv d h =
      \<lparr>json_tmx = Some
         \<lparr>tmx_attributes = Some [(''version'', Some (versionString (version d)))],
          tmx_header = Some \<lparr>header_attributes = Some attrs, header_prop = hp\<rparr>,
          tmx_body = Some \<lparr>body_tu = concat (map (\<lambda>unit. case serializeTranslationUnit unit of None \<Rightarrow> [] | Some j \<Rightarrow> [j])
              (filter (\<lambda>unit. length (tu_variants unit) > 1) (map (\<lambda>a. h ! a) (tu d))))\<rparr>\<rparr>\<rparr>
      \<and> get_prop attrs ''datatype'' = get_prop (properties d) ''datatype''"
  by (simp add: serialize_def Let_def get_prop_update) (simp add: get_prop_def)

lemma bodyUnits_all:
  assumes "\<forall>a \<in> set (tu d). 2 \<le> length (tu_variants (h ! a))"
  shows "bodyUnits (serialize pv d h)
           = map (\<lambda>u. the (serializeTranslationUnit u)) (map (\<lambda>a. h ! a) (tu d))"
proof -
  have "concat (map (\<lambda>unit. case serializeTranslationUnit unit of None \<Rightarrow> [] | Some j \<Rightarrow> [j])
            (filter (\<lambda>unit. length (tu_variants unit) > 1) us))
        = map (\<lambda>u. the (serializeTranslationUnit u)) us"
    if "\<forall>u \<in> set us. 2 \<le> length (tu_variants u)" for us
    using that by (induction us) (auto simp: serializeTranslationUnit_def)
  from this [of "map (\<lambda>a. h ! a) (tu d)"] assms show ?thesis
    by (simp add: bodyUnits_serialize)
qed

text \<open>
  The unit that \<open>addResource\<close> stores for the string resource Hello/Bonjour of datatype
  javascript, in a new document.
\<close>

lemma js_doc_built_by_addResource:
  "addResource sentenceSplit (Some (stringRes ''Hello'' ''Bonjour'')) (TMX_default, [])
     = Done () (docOf unitJs, [unitJs])"
  by (simp add: addResource_def stringRes_def TMX_default_def addTarget_def truthy_def Let_def
      segmentString_def get_prop_def stringStep_def docOf_def unitJs_def
      alloc_def segmentUnit_def at_index_def addTranslationUnit_def TranslationUnit_new_def
      TranslationUnit_empty_def addVariant_def addProperties_def resProperties_def vhashKey_def
      hashKey_def enumerate_eq_zip upt_rec)

text \<open>
  C1 fails. Each unit below has at least 2 variants with distinct keys, and the round
  trip of its document into a new instance does not give back its keys:
  \<^item> the unit built by \<open>addResource\<close> for a resource of datatype javascript comes back
    with the datatype of the header, unknown, so its unit key has changed;
  \<^item> a variant with the empty string is not read back;
  \<^item> a variant without locale is not read back;
  \<^item> a unit whose source is not among its variants comes back without source, so its
    unit key has changed;
  \<^item> a unit without source locale comes back with the source locale of the document
    and the string of that locale as source, so its unit key has changed;
  \<^item> a unit without datatype, in a document whose properties have no datatype, comes
    back with the datatype of the instance that reads it;
  \<^item> a document of version 2 is written with version 2.0, which \<open>deserialize\<close>
    refuses: it returns \<open>undefined\<close> and loads nothing;
  \<^item> two listed units of one key, which the index of a document excludes, come back as
    one unit that carries the variants of both.
\<close>

theorem round_trip_loses_content:
  "list_all (\<lambda>u. 2 \<le> length (tu_variants u) \<and> distinct (map vhashKey (tu_variants u)))
     [unitJs, unitEmptyFr, unitNoLang, unitNoSource, unitNoSrcLocale, unitPlain, unitHelloFr, unitB]
   \<and> (case deserialize (\<lambda>x. None) (serialize None (docOf unitJs) [unitJs])
              (TMX_default, [unitJs], []) of
         Done r (d', h', lg') \<Rightarrow>
           unitKeys (docOf unitJs) [unitJs] = {(Some ''en'', Some ''Hello'', Some ''javascript'')}
           \<and> unitKeys d' h' = {(Some ''en'', Some ''Hello'', Some ''unknown'')}
       | Throw e s \<Rightarrow> False)
   \<and> (case deserialize (\<lambda>x. None) (serialize None (docOf unitEmptyFr) [unitEmptyFr])
              (TMX_default, [unitEmptyFr], []) of
         Done r (d', h', lg') \<Rightarrow>
           tu d' = [1]
           \<and> variantKeys ([unitEmptyFr] ! 0) = {(Some ''en'', Some ''Hello''), (Some ''fr'', Some [])}
           \<and> variantKeys (h' ! 1) = {(Some ''en'', Some ''Hello'')}
       | Throw e s \<Rightarrow> False)
   \<and> (case deserialize (\<lambda>x. None) (serialize None (docOf unitNoLang) [unitNoLang])
              (TMX_default, [unitNoLang], []) of
         Done r (d', h', lg') \<Rightarrow>
           tu d' = [1]
           \<and> variantKeys ([unitNoLang] ! 0)
               = {(Some ''en'', Some ''Hello''), (Some ''fr'', Some ''Bonjour''), (None, Some ''Salut'')}
           \<and> variantKeys (h' ! 1) = {(Some ''en'', Some ''Hello''), (Some ''fr'', Some ''Bonjour'')}
       | Throw e s \<Rightarrow> False)
   \<and> (case deserialize (\<lambda>x. None) (serialize None (docOf unitNoSource) [unitNoSource])
              (TMX_default, [unitNoSource], []) of
         Done r (d', h', lg') \<Rightarrow>
           unitKeys (docOf unitNoSource) [unitNoSource] = {(Some ''en'', Some ''Hello'', Some ''unknown'')}
           \<and> unitKeys d' h' = {(Some ''en'', None, Some ''unknown'')}
       | Throw e s \<Rightarrow> False)
   \<and> (case deserialize (\<lambda>x. None) (serialize None (docOf unitNoSrcLocale) [unitNoSrcLocale])
              (TMX_default, [unitNoSrcLocale], []) of
         Done r (d', h', lg') \<Rightarrow>
           unitKeys (docOf unitNoSrcLocale) [unitNoSrcLocale] = {(None, None, Some ''unknown'')}
           \<and> unitKeys d' h' = {(Some ''en'', Some ''Hello'', Some ''unknown'')}
       | Throw e s \<Rightarrow> False)
   \<and> (case deserialize (\<lambda>x. None) (serialize None docPlain [unitPlain])
              (TMX_default, [unitPlain], []) of
         Done r (d', h', lg') \<Rightarrow>
           unitKeys docPlain [unitPlain] = {(Some ''en'', Some ''Hello'', None)}
           \<and> unitKeys d' h' = {(Some ''en'', Some ''Hello'', Some ''unknown'')}
       | Throw e s \<Rightarrow> False)
   \<and> (case deserialize (\<lambda>x. None) (serialize None docV2 [unitHelloFr])
              (TMX_default, [unitHelloFr], []) of
         Done r (d', h', lg') \<Rightarrow>
           r = None \<and> tu d' = []
           \<and> unitKeys docV2 [unitHelloFr] = {(Some ''en'', Some ''Hello'', Some ''unknown'')}
       | Throw e s \<Rightarrow> False)
   \<and> (case deserialize (\<lambda>x. None) (serialize None docTwice storeAB)
              (TMX_default, storeAB, []) of
         Done r (d', h', lg') \<Rightarrow>
           tu docTwice = [0, 1] \<and> tu d' = [2]
           \<and> variantKeys (storeAB ! 0) = {(Some ''en'', Some ''Hello''), (Some ''fr'', Some ''Bonjour'')}
           \<and> variantKeys (storeAB ! 1)
               = {(Some ''en'', Some ''Hello''), (Some ''fr'', Some ''Salut''), (Some ''de'', Some ''Hallo'')}
           \<and> variantKeys (h' ! 2)
               = {(Some ''en'', Some ''Hello''), (Some ''fr'', Some ''Bonjour''),
                  (Some ''fr'', Some ''Salut''), (Some ''de'', Some ''Hallo'')}
       | Throw e s \<Rightarrow> False)"
  by code_simp

text \<open>
  C1, amended. Let \<open>d\<close> be a document of version 1.4 whose properties have a non-empty
  datatype and whose listed units have pairwise distinct keys, every unit having at least
  2 variants with distinct keys, each with a non-empty locale and a non-empty string, a
  non-empty source locale, the datatype of the document, and as source the string of its
  last variant in its source locale. Then \<open>deserialize\<close> of \<open>serialize\<close> of \<open>d\<close>, into
  any instance, returns normally with the unit list of that instance, and that list
  holds, in the order of \<open>d\<close>, units with the same unit keys and the same variant keys in
  the same order; so the set of unit keys and, for each unit, the set of variant keys are
  those of \<open>d\<close>.
\<close>

theorem round_trip:
  assumes "roundTrips d h"
  shows "\<exists>r' h' lg'. deserialize segText (serialize pv d h) (r, h, lg) = Done (Some (tu r')) (r', h', lg')
           \<and> map (\<lambda>b. (hashKey (h' ! b), map vhashKey (tu_variants (h' ! b)))) (tu r')
               = map (\<lambda>a. (hashKey (h ! a), map vhashKey (tu_variants (h ! a)))) (tu d)
           \<and> unitKeys r' h' = unitKeys d h
           \<and> (\<forall>a \<in> set (tu d). \<exists>b \<in> set (tu r').
                 hashKey (h' ! b) = hashKey (h ! a) \<and> variantKeys (h' ! b) = variantKeys (h ! a))
           \<and> (\<forall>b \<in> set (tu r'). \<exists>a \<in> set (tu d).
                 hashKey (h' ! b) = hashKey (h ! a) \<and> variantKeys (h' ! b) = variantKeys (h ! a))"
proof -
  let ?dt = "get_prop (properties d) ''datatype''"
  from assms have ver: "versionString (version d) = ''1.4''" and dt: "truthy ?dt"
    and dist0: "distinct (map (\<lambda>a. hashKey (h ! a)) (tu d))"
    and units: "\<forall>a \<in> set (tu d). unitRoundTrips ?dt (h ! a)"
    by (auto simp: roundTrips_def list_all_iff)
  let ?us = "map (\<lambda>a. h ! a) (tu d)"
  let ?us' = "map (\<lambda>u. the (serializeTranslationUnit u)) ?us"
  have two: "\<forall>a \<in> set (tu d). 2 \<le> length (tu_variants (h ! a))"
    using units by (simp add: unitRoundTrips_def)
  obtain attrs hp where shape: "serialize pv d h =
      \<lparr>json_tmx = Some
         \<lparr>tmx_attributes = Some [(''version'', Some (versionString (version d)))],
          tmx_header = Some \<lparr>header_attributes = Some attrs, header_prop = hp\<rparr>,
          tmx_body = Some \<lparr>body_tu = ?us'\<rparr>\<rparr>\<rparr>"
    and adt: "get_prop attrs ''datatype'' = ?dt"
    using serialize_shape [of pv d h] bodyUnits_all [OF two, of pv]
    by (auto simp: bodyUnits_serialize)
  let ?t = "\<lparr>tmx_attributes = Some [(''version'', Some (versionString (version d)))],
          tmx_header = Some \<lparr>header_attributes = Some attrs, header_prop = hp\<rparr>,
          tmx_body = Some \<lparr>body_tu = ?us'\<rparr>\<rparr>"
  let ?r = "parseHeader ?t (r\<lparr>tu := [], tuhash := []\<rparr>)"
  have rdt: "get_prop (properties ?r) ''datatype'' = ?dt"
    using parseHeader_datatype [of ?t attrs hp "r\<lparr>tu := [], tuhash := []\<rparr>"] adt dt by simp
  have pre: "\<forall>u \<in> set ?us. unitRoundTrips ?dt u \<and> map_of (tuhash ?r) (hashKey u) = None"
    using units by simp
  have dist: "distinct (map hashKey ?us)"
    using dist0 by (simp add: comp_def)
  have two': "\<forall>u \<in> set ?us. 2 \<le> length (tu_variants u)" using two by simp
  from unitLoop_serialized [OF pre dist rdt two', of segText h lg]
  obtain r' h' where loop:
    "forEach (unitStep segText) (map (\<lambda>u. the (serializeTranslationUnit u)) ?us) (?r, h, lg)
       = Done () (r', h', lg)"
    "tu r' = tu ?r @ [length h ..< length h + length ?us]"
    "\<forall>i < length ?us. hashKey (h' ! (length h + i)) = hashKey (?us ! i)
                      \<and> tu_variants (h' ! (length h + i)) = tu_variants (?us ! i)"
    by blast
  have tu': "tu r' = [length h ..< length h + length (tu d)]" using loop(2) by simp
  have "parse segText ?t (r\<lparr>tu := [], tuhash := []\<rparr>, h, lg) = Done () (r', h', lg)"
    using loop(1) by (simp add: parse_def)
  then have des: "deserialize segText (serialize pv d h) (r, h, lg) = Done (Some (tu r')) (r', h', lg)"
    unfolding shape by (simp add: deserialize_def ver get_prop_def truthy_def)
  have nth: "hashKey (h' ! (tu r' ! i)) = hashKey (h ! (tu d ! i))
             \<and> tu_variants (h' ! (tu r' ! i)) = tu_variants (h ! (tu d ! i))"
    if "i < length (tu d)" for i
    using loop(3) that by (simp add: tu')
  have len: "length (tu r') = length (tu d)" by (simp add: tu')
  have lists: "map (\<lambda>b. (hashKey (h' ! b), map vhashKey (tu_variants (h' ! b)))) (tu r')
               = map (\<lambda>a. (hashKey (h ! a), map vhashKey (tu_variants (h ! a)))) (tu d)"
    by (rule nth_equalityI) (simp_all add: len nth)
  have keys: "unitKeys r' h' = unitKeys d h"
  proof -
    have "map (\<lambda>b. hashKey (h' ! b)) (tu r') = map (\<lambda>a. hashKey (h ! a)) (tu d)"
      by (rule nth_equalityI) (simp_all add: len nth)
    then show ?thesis unfolding unitKeys_def by simp
  qed
  have fwd: "\<exists>b \<in> set (tu r'). hashKey (h' ! b) = hashKey (h ! a) \<and> variantKeys (h' ! b) = variantKeys (h ! a)"
    if "a \<in> set (tu d)" for a
  proof -
    from that obtain i where i: "i < length (tu d)" "tu d ! i = a" by (auto simp: in_set_conv_nth)
    then have "tu r' ! i \<in> set (tu r')" using len by simp
    then show ?thesis using nth [OF i(1)] i(2) by (auto simp: variantKeys_def)
  qed
  have bwd: "\<exists>a \<in> set (tu d). hashKey (h' ! b) = hashKey (h ! a) \<and> variantKeys (h' ! b) = variantKeys (h ! a)"
    if "b \<in> set (tu r')" for b
  proof -
    from that obtain i where i: "i < length (tu r')" "tu r' ! i = b" by (auto simp: in_set_conv_nth)
    then have "tu d ! i \<in> set (tu d)" using len by simp
    then show ?thesis using nth [of i] i len by (auto simp: variantKeys_def)
  qed
  show ?thesis using des lists keys fwd bwd by blast
qed

theorem round_trip_witness:
  "roundTrips (docOf unitHelloFr) [unitHelloFr]
   \<and> (case deserialize (\<lambda>x. None) (serialize None (docOf unitHelloFr) [unitHelloFr])
              (TMX_default, [unitHelloFr], []) of
         Done r (d', h', lg') \<Rightarrow>
           r = Some (tu d')
           \<and> unitKeys d' h' = unitKeys (docOf unitHelloFr) [unitHelloFr]
           \<and> map (\<lambda>b. map vhashKey (tu_variants (h' ! b))) (tu d')
               = [[(Some ''en'', Some ''Hello''), (Some ''fr'', Some ''Bonjour'')]]
       | Throw e s \<Rightarrow> False)"
proof -
  have rt: "roundTrips (docOf unitHelloFr) [unitHelloFr]" by code_simp
  have v: "map (\<lambda>a. (hashKey ([unitHelloFr] ! a), map vhashKey (tu_variants ([unitHelloFr] ! a))))
             (tu (docOf unitHelloFr))
           = [(hashKey unitHelloFr, [(Some ''en'', Some ''Hello''), (Some ''fr'', Some ''Bonjour'')])]"
    by code_simp
  from round_trip [OF rt, of "\<lambda>x. None" None TMX_default "[]"]
  obtain r' h' lg' where
    d: "deserialize (\<lambda>x. None) (serialize None (docOf unitHelloFr) [unitHelloFr])
           (TMX_default, [unitHelloFr], []) = Done (Some (tu r')) (r', h', lg')"
    and l: "map (\<lambda>b. (hashKey (h' ! b), map vhashKey (tu_variants (h' ! b)))) (tu r')
            = map (\<lambda>a. (hashKey ([unitHelloFr] ! a), map vhashKey (tu_variants ([unitHelloFr] ! a))))
                (tu (docOf unitHelloFr))"
    and k: "unitKeys r' h' = unitKeys (docOf unitHelloFr) [unitHelloFr]"
    by blast
  have "map snd (map (\<lambda>b. (hashKey (h' ! b), map vhashKey (tu_variants (h' ! b)))) (tu r'))
          = [[(Some ''en'', Some ''Hello''), (Some ''fr'', Some ''Bonjour'')]]"
    unfolding l v by simp
  then have "map (\<lambda>b. map vhashKey (tu_variants (h' ! b))) (tu r')
          = [[(Some ''en'', Some ''Hello''), (Some ''fr'', Some ''Bonjour'')]]"
    by (simp add: comp_def)
  then show ?thesis using rt d k by simp
qed

end
